theory Spec2Isabelle
  imports Main
begin

section \<open>JavaScript values\<close>

text \<open>
  The values the library handles are JavaScript values. The model has the primitive
  values, dates and plain objects; numbers are integers (no fractions, no NaN) and an
  object is the list of its own enumerable properties. Functions are not values of
  the model: callbacks and filters are modelled apart, below.
\<close>

datatype jsval =
    JUndefined
  | JNull
  | JBool bool
  | JNum int
  | JStr string
  | JDate int
  | JObj "(string \<times> jsval) list"

text \<open>What \<^verbatim>\<open>!v\<close> negates: the truthiness of a value.\<close>

fun truthy :: "jsval \<Rightarrow> bool" where
  "truthy JUndefined = False"
| "truthy JNull = False"
| "truthy (JBool b) = b"
| "truthy (JNum n) = (n \<noteq> 0)"
| "truthy (JStr s) = (s \<noteq> [])"
| "truthy (JDate t) = True"
| "truthy (JObj ps) = True"

text \<open>
  What is thrown: \<open>Error m\<close> is the library's own \<^verbatim>\<open>throw new Error(m)\<close>,
  \<open>TypeError\<close> is raised by the language (a property read on \<^verbatim>\<open>null\<close> or
  \<^verbatim>\<open>undefined\<close>), \<open>Thrown x\<close> is whatever a subscriber's callback or filter threw.
\<close>

datatype exn = Error string | TypeError | Thrown jsval

section \<open>Own properties and the comparison of configurations\<close>

text \<open>
  \<^verbatim>\<open>a === b\<close>. Primitive values are compared by value. Two objects are strictly equal
  only when they are one and the same object; the model has no object identity and
  takes the two to be distinct objects.
\<close>

fun strict_eq :: "jsval \<Rightarrow> jsval \<Rightarrow> bool" where
  "strict_eq (JObj ps) b = False"
| "strict_eq (JDate t) b = False"
| "strict_eq a b = (a = b)"

text \<open>\<^verbatim>\<open>typeof v\<close>.\<close>

fun typeof :: "jsval \<Rightarrow> string" where
  "typeof JUndefined = ''undefined''"
| "typeof JNull = ''object''"
| "typeof (JBool b) = ''boolean''"
| "typeof (JNum n) = ''number''"
| "typeof (JStr s) = ''string''"
| "typeof (JDate t) = ''object''"
| "typeof (JObj ps) = ''object''"

text \<open>The decimal numeral of an array index, as a property key.\<close>

function show_nat :: "nat \<Rightarrow> string" where
  "show_nat n =
     (if n < 10 then [''0123456789'' ! n]
      else show_nat (n div 10) @ [''0123456789'' ! (n mod 10)])"
  by pat_completeness auto
termination
  by (relation "measure id") auto

declare show_nat.simps [simp del]

text \<open>
  The own enumerable properties of a value: those of an object; of a string, its
  characters by index; none of any other value. \<^verbatim>\<open>Object.keys(v)\<close> lists their keys and
  \<^verbatim>\<open>v[k]\<close> reads one (\<^verbatim>\<open>undefined\<close> when there is none).
\<close>

fun own_props :: "jsval \<Rightarrow> (string \<times> jsval) list" where
  "own_props (JObj ps) = ps"
| "own_props (JStr s) = zip (map show_nat [0..<length s]) (map (\<lambda>c. JStr [c]) s)"
| "own_props v = []"

definition own_keys :: "jsval \<Rightarrow> string list" where
  "own_keys v = map fst (own_props v)"

definition get_prop :: "jsval \<Rightarrow> string \<Rightarrow> jsval" where
  "get_prop v k = (case map_of (own_props v) k of None \<Rightarrow> JUndefined | Some x \<Rightarrow> x)"

text \<open>\<^verbatim>\<open>v instanceof Date\<close> and \<^verbatim>\<open>v.getTime()\<close>.\<close>

fun is_Date :: "jsval \<Rightarrow> bool" where
  "is_Date (JDate t) = True"
| "is_Date v = False"

fun getTime :: "jsval \<Rightarrow> int" where
  "getTime (JDate t) = t"
| "getTime v = 0"

text \<open>
  \<^verbatim>\<open>_isEqual(val1, val2)\<close>, line by line. No value of the model has a \<^verbatim>\<open>prototype\<close>
  property but an object that has one of its own. The loop over \<^verbatim>\<open>keys1\<close> returns false
  at the first key that \<^verbatim>\<open>keys2\<close> lacks or whose values differ.
\<close>

function isEqual :: "jsval \<Rightarrow> jsval \<Rightarrow> bool" where
  "isEqual val1 val2 =
     (if strict_eq val1 val2 then True
      else if is_Date val1 \<and> is_Date val2 then getTime val1 = getTime val2
      else if \<not> truthy val1 \<or> \<not> truthy val2
              \<or> (typeof val1 \<noteq> ''object'' \<and> typeof val2 \<noteq> ''object'')
      then strict_eq val1 val2
      else if \<not> strict_eq (get_prop val1 ''prototype'') (get_prop val2 ''prototype'') then False
      else if length (own_keys val1) \<noteq> length (own_keys val2) then False
      else list_all (\<lambda>key. key \<in> set (own_keys val2)
                            \<and> isEqual (get_prop val1 key) (get_prop val2 key))
             (own_keys val1))"
  by pat_completeness auto
termination
proof (relation "measure (\<lambda>(a, b). size a + size b)", goal_cases)
  case 1
  show ?case by simp
next
  case (2 val1 val2 key)
  have le: "size (get_prop v k) \<le> size v" for v k
  proof (cases v)
    case (JObj ps)
    show ?thesis
    proof (cases "map_of ps k")
      case None
      with JObj show ?thesis by (simp add: get_prop_def)
    next
      case (Some x)
      then have "(k, x) \<in> set ps" by (rule map_of_SomeD)
      then have "size x \<le> size_list (size_prod (\<lambda>x. 0) size) ps"
        by (induction ps) auto
      with JObj Some show ?thesis by (simp add: get_prop_def)
    qed
  next
    case (JStr s)
    have "map_of (zip (map show_nat [0..<length s]) (map (\<lambda>c. JStr [c]) s)) k = Some x
        \<Longrightarrow> size x = 0" for x
      by (auto dest!: map_of_SomeD set_zip_rightD)
    with JStr show ?thesis by (auto simp: get_prop_def split: option.splits)
  qed (simp_all add: get_prop_def)
  have lt: "size (get_prop v k) < size v"
    if "typeof v = ''object''" and "truthy v" and "own_keys v \<noteq> []" for v k
  proof (cases v)
    case (JObj ps)
    show ?thesis
    proof (cases "map_of ps k")
      case None
      with JObj show ?thesis by (simp add: get_prop_def)
    next
      case (Some x)
      then have "(k, x) \<in> set ps" by (rule map_of_SomeD)
      then have "size x \<le> size_list (size_prod (\<lambda>x. 0) size) ps"
        by (induction ps) auto
      with JObj Some show ?thesis by (simp add: get_prop_def)
    qed
  qed (use that in \<open>simp_all add: own_keys_def\<close>)
  from 2 have "truthy val1" and "truthy val2"
    and "typeof val1 = ''object'' \<or> typeof val2 = ''object''"
    and "own_keys val1 \<noteq> []" and "own_keys val2 \<noteq> []"
    by auto
  then have "size (get_prop val1 key) + size (get_prop val2 key) < size val1 + size val2"
    using lt [of val1 key] lt [of val2 key] le [of val1 key] le [of val2 key]
    by auto
  then show ?case by simp
qed

declare isEqual.simps [simp del]

section \<open>Conversion to a number\<close>

text \<open>
  The number a value converts to where the language wants a number, as the right
  operand of \<^verbatim>\<open>length > bufferSize\<close> is: an integer, \<^verbatim>\<open>NaN\<close>, \<^verbatim>\<open>Infinity\<close> or
  \<^verbatim>\<open>-Infinity\<close>. Numbers are mathematical integers, not doubles. A numeral with a
  fraction converts to a number that is no integer; the model keeps the integer below
  it, which the same array lengths exceed.
\<close>

datatype number = Num int | NaN | Infinity | NegInfinity

text \<open>
  \<^verbatim>\<open>n > x\<close> for an array length \<open>n\<close>: false when \<open>x\<close> is \<^verbatim>\<open>NaN\<close>.
\<close>

fun exceeds :: "nat \<Rightarrow> number \<Rightarrow> bool" where
  "exceeds n (Num k) = (int n > k)"
| "exceeds n NaN = False"
| "exceeds n Infinity = False"
| "exceeds n NegInfinity = True"

text \<open>
  The conversion of a string: white space at both ends is dropped; the empty string is
  0; \<^verbatim>\<open>0x\<close>, \<^verbatim>\<open>0o\<close> and \<^verbatim>\<open>0b\<close> (in either case) start a hexadecimal, octal or binary
  numeral, which has no sign; a decimal numeral may have a sign, a fraction and an
  exponent, and \<^verbatim>\<open>Infinity\<close> may have a sign; any other string is \<^verbatim>\<open>NaN\<close>. A character is
  its code, below 256.
\<close>

definition white_space :: "char \<Rightarrow> bool" where
  "white_space c = (of_char c \<in> {9, 10, 11, 12, 13, 32, 160 :: nat})"

definition trim :: "string \<Rightarrow> string" where
  "trim s = rev (dropWhile white_space (rev (dropWhile white_space s)))"

text \<open>The value of a character as a digit; 16 for a character that is none.\<close>

definition digit :: "char \<Rightarrow> nat" where
  "digit c =
     (let n = of_char c :: nat
      in if 48 \<le> n \<and> n \<le> 57 then n - 48
         else if 97 \<le> n \<and> n \<le> 102 then n - 87
         else if 65 \<le> n \<and> n \<le> 70 then n - 55
         else 16)"

definition digits :: "nat \<Rightarrow> string \<Rightarrow> bool" where
  "digits b s = list_all (\<lambda>c. digit c < b) s"

definition radix_value :: "nat \<Rightarrow> string \<Rightarrow> nat" where
  "radix_value b s = foldl (\<lambda>a c. a * b + digit c) 0 s"

fun radix_prefix :: "string \<Rightarrow> (nat \<times> string) option" where
  "radix_prefix (a # b # cs) =
     (if a \<noteq> CHR ''0'' then None
      else if b = CHR ''x'' \<or> b = CHR ''X'' then Some (16, cs)
      else if b = CHR ''o'' \<or> b = CHR ''O'' then Some (8, cs)
      else if b = CHR ''b'' \<or> b = CHR ''B'' then Some (2, cs)
      else None)"
| "radix_prefix s = None"

definition is_sign :: "string \<Rightarrow> bool" where
  "is_sign s = (case s of c # cs \<Rightarrow> c = CHR ''+'' \<or> c = CHR ''-'' | [] \<Rightarrow> False)"

definition is_minus :: "string \<Rightarrow> bool" where
  "is_minus s = (case s of c # cs \<Rightarrow> c = CHR ''-'' | [] \<Rightarrow> False)"

text \<open>The exponent after \<^verbatim>\<open>e\<close>: decimal digits, with or without a sign.\<close>

definition signed_integer :: "string \<Rightarrow> int option" where
  "signed_integer s =
     (let body = (if is_sign s then tl s else s)
      in if body = [] \<or> \<not> digits 10 body then None
         else Some (if is_minus s then - int (radix_value 10 body)
                    else int (radix_value 10 body)))"

text \<open>
  A decimal numeral without its sign: digits, then a point and digits, then an
  exponent, with a digit before or after the point. The result \<open>(m, e)\<close> stands for
  \<open>m\<close> times 10 to the power \<open>e\<close>.
\<close>

definition is_e :: "char \<Rightarrow> bool" where
  "is_e c = (c = CHR ''e'' \<or> c = CHR ''E'')"

definition unsigned_decimal :: "string \<Rightarrow> (nat \<times> int) option" where
  "unsigned_decimal s =
     (let mantissa = takeWhile (\<lambda>c. \<not> is_e c) s;
          rest = dropWhile (\<lambda>c. \<not> is_e c) s;
          whole = takeWhile (\<lambda>c. c \<noteq> CHR ''.'') mantissa;
          point = dropWhile (\<lambda>c. c \<noteq> CHR ''.'') mantissa;
          fraction = (if point = [] then [] else tl point);
          exponent = (if rest = [] then Some 0 else signed_integer (tl rest))
      in if \<not> digits 10 whole \<or> \<not> digits 10 fraction \<or> (whole = [] \<and> fraction = [])
         then None
         else (case exponent of
                 None \<Rightarrow> None
               | Some e \<Rightarrow> Some (radix_value 10 (whole @ fraction), e - int (length fraction))))"

text \<open>The integer that is not above \<open>m\<close> times 10 to the power \<open>e\<close>, and is nearest.\<close>

definition scale :: "int \<Rightarrow> int \<Rightarrow> int" where
  "scale m e = (if 0 \<le> e then m * 10 ^ nat e else m div 10 ^ nat (- e))"

definition string_to_number :: "string \<Rightarrow> number" where
  "string_to_number s =
     (let t = trim s
      in if t = [] then Num 0
         else (case radix_prefix t of
                 Some (b, ds) \<Rightarrow>
                   if ds \<noteq> [] \<and> digits b ds then Num (int (radix_value b ds)) else NaN
               | None \<Rightarrow>
                   (let body = (if is_sign t then tl t else t)
                    in if body = ''Infinity''
                       then (if is_minus t then NegInfinity else Infinity)
                       else (case unsigned_decimal body of
                               None \<Rightarrow> NaN
                             | Some (m, e) \<Rightarrow>
                                 Num (scale (if is_minus t then - int m else int m) e)))))"

text \<open>
  The conversion of a value. A date converts to its time. An object converts by way of
  the text \<^verbatim>\<open>[object Object]\<close>, to \<^verbatim>\<open>NaN\<close>; an object with a property \<^verbatim>\<open>toString\<close> of
  its own, whose conversion is a \<^verbatim>\<open>TypeError\<close>, is outside the model.
\<close>

fun to_number :: "jsval \<Rightarrow> number" where
  "to_number JUndefined = NaN"
| "to_number JNull = Num 0"
| "to_number (JBool b) = Num (if b then 1 else 0)"
| "to_number (JNum n) = Num n"
| "to_number (JStr s) = string_to_number s"
| "to_number (JDate t) = Num t"
| "to_number (JObj ps) = NaN"

section \<open>DataObservable: the buffered stream of one channel\<close>

text \<open>
  A callback is caller-supplied code. The model keeps what the stream can see of it:
  the text \<^verbatim>\<open>String(callback)\<close> the stream uses as a property key, and whether a
  call with a value returns (\<open>None\<close>) or throws. A callback does not call back into
  the stream while it runs. Every call made to a callback is recorded in \<open>calls\<close>.
\<close>

record 'v callback_fn =
  cb_source :: string
  cb_call :: "'v \<Rightarrow> jsval option"

text \<open>
  The closure one \<^verbatim>\<open>subscribe\<close> call creates: its parameters \<^verbatim>\<open>callback\<close>,
  \<^verbatim>\<open>filter\<close> and \<^verbatim>\<open>replayPolicy\<close> (\<open>JUndefined\<close> when the option is absent) and its
  local variable \<^verbatim>\<open>paused\<close>. A filter returns a truth value or throws.
\<close>

record 'v subscription =
  callback :: "'v callback_fn"
  filter_fn :: "('v \<Rightarrow> jsval + bool) option"
  sub_replayPolicy :: jsval
  paused :: bool

text \<open>
  The object and the part of the heap it reaches. \<open>buffer\<close> is the address of the
  array that holds the buffered values, \<open>arrays\<close> the arrays by address; \<open>observers\<close>
  lists the \<^verbatim>\<open>filteredObserver\<close> closures by address, \<open>closures\<close> holds them.
  A handle returned by \<^verbatim>\<open>subscribe\<close> is the address of its closure.
\<close>

record 'v DataObservable =
  bufferSize :: number
  buffer :: nat
  observers :: "nat list"
  observerState :: "string \<rightharpoonup> 'v"
  replayPolicy :: jsval
  arrays :: "nat \<Rightarrow> 'v list"
  next_array :: nat
  closures :: "nat \<rightharpoonup> 'v subscription"
  next_closure :: nat
  calls :: "(nat \<times> 'v) list"

text \<open>
  \<^verbatim>\<open>constructor(config = {})\<close> with
  \<^verbatim>\<open>const { bufferSize = 1, replayPolicy = 'last' } = config\<close>: a property that is
  \<^verbatim>\<open>undefined\<close> takes its default. Nothing reads \<^verbatim>\<open>this.bufferSize\<close> but the comparison
  \<^verbatim>\<open>this.buffer.length > this.bufferSize\<close> of \<^verbatim>\<open>setState\<close>, which converts it to a number:
  the stream is modelled holding that number.
\<close>

record observable_config =
  cfg_bufferSize :: "number option"
  cfg_replayPolicy :: jsval

definition new_DataObservable :: "observable_config \<Rightarrow> 'v DataObservable" where
  "new_DataObservable cfg =
     \<lparr> bufferSize = (case cfg_bufferSize cfg of None \<Rightarrow> Num 1 | Some n \<Rightarrow> n),
       buffer = 0,
       observers = [],
       observerState = Map.empty,
       replayPolicy = (if cfg_replayPolicy cfg = JUndefined then JStr ''last''
                       else cfg_replayPolicy cfg),
       arrays = (\<lambda>a. []),
       next_array = 1,
       closures = Map.empty,
       next_closure = 0,
       calls = [] \<rparr>"

text \<open>The values in the buffer array, oldest first.\<close>

definition buffered :: "'v DataObservable \<Rightarrow> 'v list" where
  "buffered st = arrays st (buffer st)"

text \<open>
  The property key \<^verbatim>\<open>String(filteredObserver)\<close>: the text of the arrow function,
  the same for every subscription (white space shortened).
\<close>

definition filteredObserver_source :: string where
  "filteredObserver_source =
     ''value => { if (!paused && (!filter || filter(value))) { this.observerState[callback] = value; callback(value); } }''"

text \<open>
  \<^verbatim>\<open>callback(value)\<close> after \<^verbatim>\<open>this.observerState[callback] = value\<close>: the body of
  the \<^verbatim>\<open>if\<close> in \<^verbatim>\<open>filteredObserver\<close>. The result is what was thrown, if anything.
\<close>

definition invoke :: "nat \<Rightarrow> 'v subscription \<Rightarrow> 'v \<Rightarrow> 'v DataObservable
    \<Rightarrow> exn option \<times> 'v DataObservable" where
  "invoke ob c v st =
     (map_option Thrown (cb_call (callback c) v),
      st\<lparr>observerState := (observerState st)(cb_source (callback c) \<mapsto> v),
         calls := calls st @ [(ob, v)]\<rparr>)"

text \<open>
  \<^verbatim>\<open>if (!paused && (!filter || filter(value))) { ... }\<close> for the closure at \<open>ob\<close>.
\<close>

definition filteredObserver :: "nat \<Rightarrow> 'v \<Rightarrow> 'v DataObservable
    \<Rightarrow> exn option \<times> 'v DataObservable" where
  "filteredObserver ob v st =
     (case closures st ob of
        None \<Rightarrow> (None, st)
      | Some c \<Rightarrow>
          if paused c then (None, st)
          else (case filter_fn c of
                  None \<Rightarrow> invoke ob c v st
                | Some f \<Rightarrow>
                    (case f v of
                       Inl x \<Rightarrow> (Some (Thrown x), st)
                     | Inr b \<Rightarrow> if b then invoke ob c v st else (None, st))))"

text \<open>
  \<^verbatim>\<open>this.observers.forEach(observer => { this.observerState[observer] = value;
  observer(value); })\<close>: the pass ends at the first observer that throws.
\<close>

fun notify :: "nat list \<Rightarrow> 'v \<Rightarrow> 'v DataObservable \<Rightarrow> exn option \<times> 'v DataObservable" where
  "notify [] v st = (None, st)"
| "notify (ob # obs) v st =
     (case filteredObserver ob v
             (st\<lparr>observerState := (observerState st)(filteredObserver_source \<mapsto> v)\<rparr>) of
        (Some e, st') \<Rightarrow> (Some e, st')
      | (None, st') \<Rightarrow> notify obs v st')"

text \<open>
  \<^verbatim>\<open>setState(value)\<close>: \<^verbatim>\<open>push\<close>, one \<^verbatim>\<open>shift\<close> when the array is longer than
  \<^verbatim>\<open>bufferSize\<close>, then the delivery pass. Both change the buffer array in place.
\<close>

definition setState :: "'v \<Rightarrow> 'v DataObservable \<Rightarrow> exn option \<times> 'v DataObservable" where
  "setState v st =
     (let pushed = arrays st (buffer st) @ [v];
          kept = (if exceeds (length pushed) (bufferSize st) then tl pushed else pushed);
          st1 = st\<lparr>arrays := (arrays st)(buffer st := kept)\<rparr>
      in notify (observers st1) v st1)"

text \<open>\<^verbatim>\<open>this.buffer.slice(-1)\<close>: the last element, if there is one.\<close>

definition slice_last :: "'v list \<Rightarrow> 'v list" where
  "slice_last xs = (if xs = [] then [] else [last xs])"

text \<open>
  The body both \<^verbatim>\<open>forEach\<close> loops of \<^verbatim>\<open>replay\<close> share:
  \<^verbatim>\<open>this.observerState[callback] = value; filteredObserver(value);\<close> for each value.
\<close>

fun replay_each :: "nat \<Rightarrow> 'v subscription \<Rightarrow> 'v list \<Rightarrow> 'v DataObservable
    \<Rightarrow> exn option \<times> 'v DataObservable" where
  "replay_each ob c [] st = (None, st)"
| "replay_each ob c (v # vs) st =
     (case filteredObserver ob v
             (st\<lparr>observerState := (observerState st)(cb_source (callback c) \<mapsto> v)\<rparr>) of
        (Some e, st') \<Rightarrow> (Some e, st')
      | (None, st') \<Rightarrow> replay_each ob c vs st')"

text \<open>The closure \<^verbatim>\<open>replay\<close> of the subscription at \<open>ob\<close>.\<close>

definition replay :: "nat \<Rightarrow> 'v DataObservable \<Rightarrow> exn option \<times> 'v DataObservable" where
  "replay ob st =
     (case closures st ob of
        None \<Rightarrow> (None, st)
      | Some c \<Rightarrow>
          if sub_replayPolicy c = JStr ''last''
             \<or> (sub_replayPolicy c = JUndefined \<and> replayPolicy st = JStr ''last'')
          then replay_each ob c (slice_last (arrays st (buffer st))) st
          else if sub_replayPolicy c = JStr ''all''
             \<or> (sub_replayPolicy c = JUndefined \<and> replayPolicy st = JStr ''all'')
          then replay_each ob c (arrays st (buffer st)) st
          else (None, st))"

text \<open>
  \<^verbatim>\<open>subscribe(callback, { filter, replayPolicy } = {})\<close>: a new closure with
  \<^verbatim>\<open>paused = false\<close>, pushed on \<^verbatim>\<open>observers\<close>, then \<^verbatim>\<open>replay()\<close>. The result is the
  handle, or what the replay threw (the closure stays on \<^verbatim>\<open>observers\<close> then).
\<close>

record 'v options =
  opt_filter :: "('v \<Rightarrow> jsval + bool) option"
  opt_replayPolicy :: jsval

definition no_options :: "'v options" where
  "no_options = \<lparr> opt_filter = None, opt_replayPolicy = JUndefined \<rparr>"

definition subscribe :: "'v callback_fn \<Rightarrow> 'v options \<Rightarrow> 'v DataObservable
    \<Rightarrow> (exn + nat) \<times> 'v DataObservable" where
  "subscribe cb opts st =
     (let ob = next_closure st;
          c = \<lparr> callback = cb, filter_fn = opt_filter opts,
                sub_replayPolicy = opt_replayPolicy opts, paused = False \<rparr>;
          st1 = st\<lparr>closures := (closures st)(ob \<mapsto> c),
                   next_closure := Suc ob,
                   observers := observers st @ [ob]\<rparr>
      in case replay ob st1 of
           (Some e, st2) \<Rightarrow> (Inl e, st2)
         | (None, st2) \<Rightarrow> (Inr ob, st2))"

text \<open>The three methods of the handle of the closure at \<open>ob\<close>.\<close>

definition unsubscribe :: "nat \<Rightarrow> 'v DataObservable \<Rightarrow> 'v DataObservable" where
  "unsubscribe ob st =
     (case closures st ob of
        None \<Rightarrow> st
      | Some c \<Rightarrow>
          st\<lparr>observers := filter (\<lambda>x. x \<noteq> ob) (observers st),
             observerState := (observerState st)(cb_source (callback c) := None)\<rparr>)"

definition pause :: "nat \<Rightarrow> 'v DataObservable \<Rightarrow> 'v DataObservable" where
  "pause ob st =
     (case closures st ob of
        None \<Rightarrow> st
      | Some c \<Rightarrow> st\<lparr>closures := (closures st)(ob \<mapsto> c\<lparr>paused := True\<rparr>)\<rparr>)"

definition resume :: "nat \<Rightarrow> 'v DataObservable \<Rightarrow> exn option \<times> 'v DataObservable" where
  "resume ob st =
     (case closures st ob of
        None \<Rightarrow> (None, st)
      | Some c \<Rightarrow> replay ob (st\<lparr>closures := (closures st)(ob \<mapsto> c\<lparr>paused := False\<rparr>)\<rparr>))"

text \<open>
  \<^verbatim>\<open>getBuffer() { return this.buffer; }\<close> returns the array itself: its address.
  \<^verbatim>\<open>clearBuffer()\<close> binds \<^verbatim>\<open>this.buffer\<close> to a new empty array.
\<close>

definition getBuffer :: "'v DataObservable \<Rightarrow> nat" where
  "getBuffer st = buffer st"

definition clearBuffer :: "'v DataObservable \<Rightarrow> 'v DataObservable" where
  "clearBuffer st =
     st\<lparr>buffer := next_array st,
        arrays := (arrays st)(next_array st := []),
        next_array := Suc (next_array st)\<rparr>"

definition getObserverCount :: "'v DataObservable \<Rightarrow> nat" where
  "getObserverCount st = length (observers st)"

definition unsubscribeAll :: "'v DataObservable \<Rightarrow> 'v DataObservable" where
  "unsubscribeAll st = st\<lparr>observers := []\<rparr>"

definition getReplayPolicy :: "'v DataObservable \<Rightarrow> jsval" where
  "getReplayPolicy st = replayPolicy st"

text \<open>
  What a caller can do with the array \<^verbatim>\<open>getBuffer\<close> returned:
  \<^verbatim>\<open>Array.prototype.push\<close> on the array at address \<open>a\<close>.
\<close>

definition array_push :: "nat \<Rightarrow> 'v \<Rightarrow> 'v DataObservable \<Rightarrow> 'v DataObservable" where
  "array_push a x st = st\<lparr>arrays := (arrays st)(a := arrays st a @ [x])\<rparr>"

text \<open>
  A publisher that publishes one value after the other and goes on when a publish
  throws (the value is in the buffer before the delivery pass starts).
\<close>

fun publish_all :: "'v list \<Rightarrow> 'v DataObservable \<Rightarrow> 'v DataObservable" where
  "publish_all [] st = st"
| "publish_all (v # vs) st = publish_all vs (snd (setState v st))"

section \<open>PubSubMFE: the registry of channels\<close>

text \<open>
  The parameter \<^verbatim>\<open>storeMap\<close>: absent (or an object with no \<^verbatim>\<open>default\<close> property), a
  \<^verbatim>\<open>Map\<close> (its address), or an object that is no \<^verbatim>\<open>Map\<close> with its \<^verbatim>\<open>default\<close> property
  (the address of a \<^verbatim>\<open>Map\<close>, if it has one). \<^verbatim>\<open>ObservableConfig\<close> is \<open>JUndefined\<close> when
  it is not passed.
\<close>

datatype storeMapArg = NoStoreMap | AMap nat | AnObject "nat option"

record params =
  storeMap :: storeMapArg
  ObservableConfig :: jsval

text \<open>
  The \<^verbatim>\<open>Map\<close> objects by address, each from channel to stream, and the two static
  fields of the class: \<^verbatim>\<open>PubSubMFE.store['default']\<close> and
  \<^verbatim>\<open>PubSubMFE.firstInstanceParams['default']\<close>.
\<close>

record world =
  maps :: "nat \<Rightarrow> (jsval \<rightharpoonup> jsval DataObservable)"
  next_map :: nat
  static_store_default :: "nat option"
  firstInstanceParams_default :: "params option"

text \<open>An instance: \<^verbatim>\<open>this.store\<close> and \<^verbatim>\<open>this.config\<close>.\<close>

record PubSubMFE =
  store :: nat
  config :: jsval

text \<open>The class as loaded: no instance was constructed yet.\<close>

definition initial_world :: world where
  "initial_world =
     \<lparr> maps = (\<lambda>m. Map.empty), next_map = 0,
       static_store_default = None, firstInstanceParams_default = None \<rparr>"

text \<open>\<^verbatim>\<open>new Map()\<close>, by a caller that passes its own store.\<close>

definition new_Map :: "world \<Rightarrow> nat \<times> world" where
  "new_Map w =
     (next_map w, w\<lparr>maps := (maps w)(next_map w := Map.empty), next_map := Suc (next_map w)\<rparr>)"

text \<open>
  \<^verbatim>\<open>new DataObservable(config)\<close> for a configuration object: its \<^verbatim>\<open>bufferSize\<close> and
  \<^verbatim>\<open>replayPolicy\<close> properties are read, whatever their values are. A \<^verbatim>\<open>bufferSize\<close>
  that is not \<^verbatim>\<open>undefined\<close> is kept, as the number the comparison of \<^verbatim>\<open>setState\<close>
  converts it to. Destructuring \<^verbatim>\<open>null\<close> is a \<^verbatim>\<open>TypeError\<close>.
\<close>

definition as_config :: "jsval \<Rightarrow> observable_config" where
  "as_config c =
     \<lparr> cfg_bufferSize = (if get_prop c ''bufferSize'' = JUndefined then None
                         else Some (to_number (get_prop c ''bufferSize''))),
       cfg_replayPolicy = get_prop c ''replayPolicy'' \<rparr>"

definition construct_DataObservable :: "jsval \<Rightarrow> exn + jsval DataObservable" where
  "construct_DataObservable c =
     (if c = JNull then Inl TypeError else Inr (new_DataObservable (as_config c)))"

text \<open>The message of the configuration-conflict error.\<close>

definition config_conflict :: string where
  "config_conflict = ''channel default already exists, cannot pass ObservableConfig''"

text \<open>
  \<^verbatim>\<open>constructor(params = {})\<close>. \<open>first\<close> is \<^verbatim>\<open>PubSubMFE.firstInstanceParams['default']\<close>
  after the first statement; \<open>storeToUse\<close> is the store chosen, the shared one being
  made when it is needed and not there. \<^verbatim>\<open>Object.keys(null)\<close> is a \<^verbatim>\<open>TypeError\<close>. What
  was done to the static fields before a \<^verbatim>\<open>throw\<close> stays done.
\<close>

definition PubSubMFE_constructor :: "params \<Rightarrow> world \<Rightarrow> (exn + PubSubMFE) \<times> world" where
  "PubSubMFE_constructor ps w =
     (let cfg = (if ObservableConfig ps = JUndefined then JObj [] else ObservableConfig ps);
          first = (case firstInstanceParams_default w of None \<Rightarrow> ps | Some fp \<Rightarrow> fp);
          w1 = w\<lparr>firstInstanceParams_default := Some first\<rparr>;
          given = (case storeMap ps of NoStoreMap \<Rightarrow> None | AMap m \<Rightarrow> Some m | AnObject d \<Rightarrow> d);
          storeToUse = (case given of
                          Some m \<Rightarrow> m
                        | None \<Rightarrow> (case static_store_default w1 of
                                     Some m \<Rightarrow> m | None \<Rightarrow> next_map w1));
          w2 = (case given of
                  Some m \<Rightarrow> w1
                | None \<Rightarrow> (case static_store_default w1 of
                             Some m \<Rightarrow> w1
                           | None \<Rightarrow> w1\<lparr>maps := (maps w1)(next_map w1 := Map.empty),
                                       next_map := Suc (next_map w1),
                                       static_store_default := Some (next_map w1)\<rparr>))
      in case maps w2 storeToUse (JStr ''default'') of
           Some d \<Rightarrow>
             if cfg = JNull then (Inl TypeError, w2)
             else if own_keys cfg \<noteq> [] \<and> \<not> isEqual (ObservableConfig first) cfg
             then (Inl (Error config_conflict), w2)
             else (Inr \<lparr> store = storeToUse, config = cfg \<rparr>, w2)
         | None \<Rightarrow>
             (case construct_DataObservable cfg of
                Inl e \<Rightarrow> (Inl e, w2)
              | Inr d \<Rightarrow>
                  (Inr \<lparr> store = storeToUse, config = cfg \<rparr>,
                   w2\<lparr>maps := (maps w2)(storeToUse :=
                          (maps w2 storeToUse)(JStr ''default'' \<mapsto> d))\<rparr>)))"

text \<open>\<^verbatim>\<open>_generateObservable(channel)\<close>.\<close>

definition generateObservable :: "PubSubMFE \<Rightarrow> jsval \<Rightarrow> world \<Rightarrow> exn option \<times> world" where
  "generateObservable this channel w =
     (case maps w (store this) channel of
        Some d \<Rightarrow> (None, w)
      | None \<Rightarrow>
          (case construct_DataObservable (config this) of
             Inl e \<Rightarrow> (Some e, w)
           | Inr d \<Rightarrow>
               (None, w\<lparr>maps := (maps w)(store this := (maps w (store this))(channel \<mapsto> d))\<rparr>)))"

text \<open>
  \<^verbatim>\<open>get(channel)\<close>; the stream returned is named by its store and channel.
  \<^verbatim>\<open>setState(channel, newState)\<close> and \<^verbatim>\<open>subscribe(channel, callback, options)\<close>; a
  callback that is not passed is \<open>None\<close>.
\<close>

definition PubSubMFE_get :: "PubSubMFE \<Rightarrow> jsval \<Rightarrow> world \<Rightarrow> (exn + nat \<times> jsval) \<times> world" where
  "PubSubMFE_get this channel w =
     (if \<not> truthy channel then (Inl (Error ''Channel is required''), w)
      else (case generateObservable this channel w of
              (Some e, w1) \<Rightarrow> (Inl e, w1)
            | (None, w1) \<Rightarrow> (Inr (store this, channel), w1)))"

definition PubSubMFE_setState :: "PubSubMFE \<Rightarrow> jsval \<Rightarrow> jsval \<Rightarrow> world \<Rightarrow> exn option \<times> world" where
  "PubSubMFE_setState this channel newState w =
     (if \<not> truthy channel then (Some (Error ''Channel is required''), w)
      else if newState = JUndefined then (Some (Error ''New state is required''), w)
      else (case generateObservable this channel w of
              (Some e, w1) \<Rightarrow> (Some e, w1)
            | (None, w1) \<Rightarrow>
                (case maps w1 (store this) channel of
                   None \<Rightarrow> (Some TypeError, w1)
                 | Some d \<Rightarrow>
                     (fst (setState newState d),
                      w1\<lparr>maps := (maps w1)(store this :=
                             (maps w1 (store this))(channel \<mapsto> snd (setState newState d)))\<rparr>))))"

definition PubSubMFE_subscribe :: "PubSubMFE \<Rightarrow> jsval \<Rightarrow> jsval callback_fn option
    \<Rightarrow> jsval options \<Rightarrow> world \<Rightarrow> (exn + nat) \<times> world" where
  "PubSubMFE_subscribe this channel cb opts w =
     (if \<not> truthy channel then (Inl (Error ''Channel is required''), w)
      else (case cb of
              None \<Rightarrow> (Inl (Error ''Callback is required''), w)
            | Some f \<Rightarrow>
                (case generateObservable this channel w of
                   (Some e, w1) \<Rightarrow> (Inl e, w1)
                 | (None, w1) \<Rightarrow>
                     (case maps w1 (store this) channel of
                        None \<Rightarrow> (Inl TypeError, w1)
                      | Some d \<Rightarrow>
                          (fst (subscribe f opts d),
                           w1\<lparr>maps := (maps w1)(store this :=
                                  (maps w1 (store this))(channel \<mapsto> snd (subscribe f opts d)))\<rparr>)))))"

section \<open>Notions of the specification\<close>

text \<open>A filter (if present) returns true for the value.\<close>

definition passes :: "('v \<Rightarrow> jsval + bool) option \<Rightarrow> 'v \<Rightarrow> bool" where
  "passes fo v = (case fo of None \<Rightarrow> True | Some f \<Rightarrow> f v = Inr True)"

text \<open>
  The subscription at \<open>ob\<close> is to receive \<open>v\<close>: its paused flag is false and its
  filter (if present) returns true for \<open>v\<close>.
\<close>

definition eligible :: "'v DataObservable \<Rightarrow> 'v \<Rightarrow> nat \<Rightarrow> bool" where
  "eligible st v ob =
     (case closures st ob of None \<Rightarrow> False
      | Some c \<Rightarrow> \<not> paused c \<and> passes (filter_fn c) v)"

text \<open>
  A subscriber's code throws when it is handed \<open>v\<close>: its filter throws, or accepts
  \<open>v\<close> and its callback throws.
\<close>

definition throws_on :: "('v \<Rightarrow> jsval + bool) option \<Rightarrow> 'v callback_fn \<Rightarrow> 'v \<Rightarrow> bool" where
  "throws_on fo cb v =
     (case fo of
        None \<Rightarrow> cb_call cb v \<noteq> None
      | Some f \<Rightarrow> (case f v of Inl x \<Rightarrow> True | Inr b \<Rightarrow> b \<and> cb_call cb v \<noteq> None))"

text \<open>The subscription at \<open>ob\<close> is not paused and its code throws when handed \<open>v\<close>.\<close>

definition throwing :: "'v DataObservable \<Rightarrow> 'v \<Rightarrow> nat \<Rightarrow> bool" where
  "throwing st v ob =
     (case closures st ob of None \<Rightarrow> False
      | Some c \<Rightarrow> \<not> paused c \<and> throws_on (filter_fn c) (callback c) v)"

text \<open>
  The subscriptions a fail-fast delivery pass gets to: those in front of the first one
  that throws, and that one.
\<close>

fun reached :: "'v DataObservable \<Rightarrow> 'v \<Rightarrow> nat list \<Rightarrow> nat list" where
  "reached st v [] = []"
| "reached st v (ob # obs) = ob # (if throwing st v ob then [] else reached st v obs)"

text \<open>
  The effective replay policy of a subscription: its own override, else the stream's
  default.
\<close>

definition effective_policy :: "jsval \<Rightarrow> jsval \<Rightarrow> jsval" where
  "effective_policy override dflt = (if override = JUndefined then dflt else override)"

text \<open>
  The buffered values a policy selects for a replay: with \<^verbatim>\<open>'last'\<close> the most recent one
  (none if the buffer is empty), with \<^verbatim>\<open>'all'\<close> every one, oldest first.
\<close>

definition selected :: "jsval \<Rightarrow> 'v list \<Rightarrow> 'v list" where
  "selected p buf =
     (if p = JStr ''last'' then (case rev buf of [] \<Rightarrow> [] | x # xs \<Rightarrow> [x])
      else if p = JStr ''all'' then buf
      else [])"

text \<open>
  A stream configuration as the interface types it: an object whose property values
  are primitive (a number, a string). For such objects deep equality is having the
  same properties. \<open>config_arg\<close>: the configuration is absent or is such an object;
  \<open>config_given\<close>: the default \<^verbatim>\<open>{}\<close> for an absent one.
\<close>

fun primitive :: "jsval \<Rightarrow> bool" where
  "primitive (JObj ps) = False"
| "primitive (JDate t) = False"
| "primitive v = True"

definition flat_config :: "jsval \<Rightarrow> bool" where
  "flat_config c =
     (case c of
        JObj ps \<Rightarrow> distinct (map fst ps) \<and> list_all (\<lambda>kv. primitive (snd kv)) ps
      | _ \<Rightarrow> False)"

definition same_properties :: "jsval \<Rightarrow> jsval \<Rightarrow> bool" where
  "same_properties a b =
     (case a of
        JObj ps \<Rightarrow> (case b of JObj qs \<Rightarrow> set ps = set qs | _ \<Rightarrow> False)
      | _ \<Rightarrow> False)"

definition config_arg :: "jsval \<Rightarrow> bool" where
  "config_arg c = (c = JUndefined \<or> flat_config c)"

definition config_given :: "jsval \<Rightarrow> jsval" where
  "config_given c = (if c = JUndefined then JObj [] else c)"

text \<open>What a delivery pass or a replay leaves as it is: all but the bookkeeping and the calls.\<close>

definition same_heap :: "'v DataObservable \<Rightarrow> 'v DataObservable \<Rightarrow> bool" where
  "same_heap st st' =
     (bufferSize st' = bufferSize st \<and> buffer st' = buffer st \<and> observers st' = observers st
      \<and> replayPolicy st' = replayPolicy st \<and> arrays st' = arrays st
      \<and> next_array st' = next_array st \<and> closures st' = closures st
      \<and> next_closure st' = next_closure st)"

section \<open>Example streams\<close>

definition quiet_callback :: "nat callback_fn" where
  "quiet_callback = \<lparr> cb_source = ''cb'', cb_call = (\<lambda>v. None) \<rparr>"

definition stream2 :: "nat DataObservable" where
  "stream2 = new_DataObservable \<lparr> cfg_bufferSize = Some (Num 2), cfg_replayPolicy = JUndefined \<rparr>"

definition under30 :: "(nat \<Rightarrow> jsval + bool) option" where
  "under30 = Some (\<lambda>v. Inr (v < 30))"

definition failing_callback :: "nat callback_fn" where
  "failing_callback = \<lparr> cb_source = ''bad'', cb_call = (\<lambda>v. Some (JStr ''boom'')) \<rparr>"

text \<open>Three subscriptions: one plain, one with a filter, one paused.\<close>

definition stream_abc :: "nat DataObservable" where
  "stream_abc =
     pause 2 (snd (subscribe quiet_callback no_options
       (snd (subscribe quiet_callback \<lparr> opt_filter = under30, opt_replayPolicy = JUndefined \<rparr>
         (snd (subscribe quiet_callback no_options stream2))))))"

text \<open>Three subscriptions, the second with a callback that throws.\<close>

definition stream_fail :: "nat DataObservable" where
  "stream_fail =
     snd (subscribe quiet_callback no_options
       (snd (subscribe failing_callback no_options
         (snd (subscribe quiet_callback no_options stream2)))))"

text \<open>The stream after 5 and 6 were published.\<close>

definition stream56 :: "nat DataObservable" where
  "stream56 = publish_all [5, 6] stream2"

text \<open>One subscription, paused at once; then 5 and 6 are published; then it is resumed.\<close>

definition stream_paused :: "nat DataObservable" where
  "stream_paused = pause 0 (snd (subscribe quiet_callback no_options stream2))"

definition stream_paused56 :: "nat DataObservable" where
  "stream_paused56 = publish_all [5, 6] stream_paused"

definition stream_resumed :: "nat DataObservable" where
  "stream_resumed = snd (resume 0 stream_paused56)"

text \<open>A subscription whose \<^verbatim>\<open>replayPolicy\<close> option is \<^verbatim>\<open>'none'\<close>, made when 5 and 6 are buffered.\<close>

definition stream_none :: "nat DataObservable" where
  "stream_none = snd (subscribe quiet_callback
     \<lparr>opt_filter = None, opt_replayPolicy = JStr ''none''\<rparr> stream56)"

text \<open>One subscription, then 7 is published.\<close>

definition stream_one :: "nat DataObservable" where
  "stream_one = snd (setState 7 (snd (subscribe quiet_callback no_options stream2)))"

section \<open>Example registries\<close>

definition config5 :: jsval where
  "config5 = JObj [(''bufferSize'', JNum 5), (''replayPolicy'', JStr ''all'')]"

definition config5' :: jsval where
  "config5' = JObj [(''replayPolicy'', JStr ''all''), (''bufferSize'', JNum 5)]"

definition config3 :: jsval where
  "config3 = JObj [(''bufferSize'', JNum 3), (''replayPolicy'', JStr ''all'')]"

text \<open>Parameters with no \<^verbatim>\<open>storeMap\<close>: the instance binds to the shared store.\<close>

definition shared :: "jsval \<Rightarrow> params" where
  "shared c = \<lparr> storeMap = NoStoreMap, ObservableConfig = c \<rparr>"

text \<open>After the first instance, on the shared store, with \<open>config5\<close>.\<close>

definition world5 :: world where
  "world5 = snd (PubSubMFE_constructor (shared config5) initial_world)"

definition registry5 :: PubSubMFE where
  "registry5 = \<lparr> store = 0, config = config5 \<rparr>"

text \<open>
  After a first instance on a store of its own, with \<open>config5\<close>, and then after a
  second instance on the shared store, with \<open>config3\<close>.
\<close>

definition world_own :: world where
  "world_own = snd (PubSubMFE_constructor \<lparr> storeMap = AMap 0, ObservableConfig = config5 \<rparr>
     (snd (new_Map initial_world)))"

definition world_both :: world where
  "world_both = snd (PubSubMFE_constructor (shared config3) world_own)"

text \<open>
  A first instance on the shared store with the configuration \<open>c\<close>; then 6, 7 and 8
  are published on the \<^verbatim>\<open>default\<close> channel.
\<close>

definition published678 :: "jsval \<Rightarrow> world" where
  "published678 c =
     snd (PubSubMFE_setState \<lparr> store = 0, config = c \<rparr> (JStr ''default'') (JNum 8)
       (snd (PubSubMFE_setState \<lparr> store = 0, config = c \<rparr> (JStr ''default'') (JNum 7)
         (snd (PubSubMFE_setState \<lparr> store = 0, config = c \<rparr> (JStr ''default'') (JNum 6)
           (snd (PubSubMFE_constructor (shared c) initial_world)))))))"

section \<open>The delivery pass leaves the buffer alone\<close>

lemma filteredObserver_frame:
  "filteredObserver ob v st = (r, st') \<Longrightarrow> same_heap st st'"
  by (auto simp: filteredObserver_def invoke_def same_heap_def
      split: option.splits sum.splits if_splits)

lemma notify_frame: "notify obs v st = (r, st') \<Longrightarrow> same_heap st st'"
proof (induction obs arbitrary: st)
  case Nil
  then show ?case by (simp add: same_heap_def)
next
  case (Cons ob obs)
  obtain r1 st1 where f: "filteredObserver ob v
      (st\<lparr>observerState := (observerState st)(filteredObserver_source \<mapsto> v)\<rparr>) = (r1, st1)"
    by (cases "filteredObserver ob v
      (st\<lparr>observerState := (observerState st)(filteredObserver_source \<mapsto> v)\<rparr>)")
  from filteredObserver_frame [OF f] have h1: "same_heap st st1"
    by (simp add: same_heap_def)
  show ?case
  proof (cases r1)
    case None
    with Cons.prems f have "notify obs v st1 = (r, st')" by simp
    from Cons.IH [OF this] h1 show ?thesis by (simp add: same_heap_def)
  next
    case (Some e)
    with Cons.prems f have "st' = st1" by simp
    with h1 show ?thesis by simp
  qed
qed

lemma setState_frame:
  assumes "setState v st = (r, st')"
  shows "bufferSize st' = bufferSize st" and "buffer st' = buffer st"
    and "observers st' = observers st" and "closures st' = closures st"
    and "replayPolicy st' = replayPolicy st"
  using assms notify_frame [of "observers st" v _ r st']
  by (auto simp: setState_def Let_def same_heap_def)

lemma buffered_setState:
  "buffered (snd (setState v st)) =
     (if exceeds (length (buffered st @ [v])) (bufferSize st) then tl (buffered st @ [v])
      else buffered st @ [v])"
proof -
  obtain r st' where n: "setState v st = (r, st')" by (cases "setState v st")
  then show ?thesis
    using notify_frame [of "observers st" v _ r st']
    by (auto simp: setState_def Let_def buffered_def same_heap_def)
qed

lemma bufferSize_setState: "bufferSize (snd (setState v st)) = bufferSize st"
  using setState_frame(1) [of v st "fst (setState v st)" "snd (setState v st)"] by simp

lemma buffered_publish_all:
  "0 < k \<Longrightarrow> bufferSize st = Num (int k) \<Longrightarrow> length (buffered st) \<le> k \<Longrightarrow>
   buffered (publish_all vs st) = drop (length (buffered st @ vs) - k) (buffered st @ vs)"
proof (induction vs arbitrary: st)
  case Nil
  then show ?case by simp
next
  case (Cons v vs)
  let ?st1 = "snd (setState v st)"
  let ?b = "buffered st"
  have b1: "buffered ?st1 = (if length ?b = k then tl (?b @ [v]) else ?b @ [v])"
    using Cons.prems by (auto simp: buffered_setState)
  have len1: "length (buffered ?st1) \<le> k"
    using Cons.prems b1 by auto
  have bs1: "bufferSize ?st1 = Num (int k)"
    using Cons.prems by (simp add: bufferSize_setState)
  have "buffered (publish_all (v # vs) st) = buffered (publish_all vs ?st1)" by simp
  also have "\<dots> = drop (length (buffered ?st1 @ vs) - k) (buffered ?st1 @ vs)"
    by (rule Cons.IH [OF Cons.prems(1) bs1 len1])
  also have "\<dots> = drop (length (?b @ v # vs) - k) (?b @ v # vs)"
  proof (cases "length ?b = k")
    case True
    then have ne: "?b \<noteq> []" using Cons.prems(1) by auto
    then obtain x xs where bx: "?b = x # xs" by (cases ?b) auto
    have s1: "buffered ?st1 @ vs = xs @ v # vs" using True b1 bx by simp
    have l1: "length (buffered ?st1 @ vs) - k = length vs" using True bx s1 by simp
    have l2: "length (?b @ v # vs) - k = Suc (length vs)" using True by simp
    have "drop (Suc (length vs)) (?b @ v # vs) = drop (length vs) (xs @ v # vs)"
      using bx by simp
    with s1 l1 l2 show ?thesis by simp
  next
    case False
    with b1 show ?thesis by simp
  qed
  finally show ?case .
qed

section \<open>The bounded buffer\<close>

text \<open>
  Claim C1. A stream has \<^verbatim>\<open>bufferSize\<close> \<open>k > 0\<close> and an empty buffer, as a stream just
  created has. While the values \<open>vs\<close> are published one after the other, after each
  publish the buffer holds at most \<open>k\<close> values: the last \<open>k\<close> of those published so
  far (all of them while fewer than \<open>k\<close> were published), in the order they were
  published. Once more than \<open>k\<close> values were published, the array \<^verbatim>\<open>getBuffer\<close> returns
  holds exactly the last \<open>k\<close>, oldest first. Subscribers, if any, do not matter, nor
  whether a publish threw.
\<close>

theorem bounded_buffer:
  assumes "0 < k" and "bufferSize st = Num (int k)" and "buffered st = []"
  shows "(\<forall>n \<le> length vs.
            length (buffered (publish_all (take n vs) st)) \<le> k
          \<and> buffered (publish_all (take n vs) st) = drop (n - k) (take n vs))
       \<and> (k < length vs \<longrightarrow>
            arrays (publish_all vs st) (getBuffer (publish_all vs st)) = drop (length vs - k) vs
          \<and> length (arrays (publish_all vs st) (getBuffer (publish_all vs st))) = k)"
proof -
  have eq: "buffered (publish_all ws st) = drop (length ws - k) ws" for ws
    using buffered_publish_all [OF assms(1) assms(2), of ws] assms(3) by simp
  have len: "length (buffered (publish_all ws st)) \<le> k" for ws
    by (simp add: eq)
  have prefix: "\<forall>n \<le> length vs.
            length (buffered (publish_all (take n vs) st)) \<le> k
          \<and> buffered (publish_all (take n vs) st) = drop (n - k) (take n vs)"
  proof (intro allI impI conjI)
    fix n assume "n \<le> length vs"
    then have "length (take n vs) = n" by simp
    then show "buffered (publish_all (take n vs) st) = drop (n - k) (take n vs)"
      using eq [of "take n vs"] by simp
  qed (rule len)
  have "arrays (publish_all vs st) (getBuffer (publish_all vs st)) = buffered (publish_all vs st)"
    by (simp add: getBuffer_def buffered_def)
  with prefix eq [of vs] show ?thesis by auto
qed

theorem bounded_buffer_witness:
  "0 < (2::nat) \<and> bufferSize stream2 = Num (int 2) \<and> buffered stream2 = []
   \<and> buffered (publish_all [5] stream2) = [5]
   \<and> 2 < length [5, 6, 7::nat]
   \<and> arrays (publish_all [5, 6, 7] stream2) (getBuffer (publish_all [5, 6, 7] stream2)) = [6, 7]"
proof -
  have h1: "0 < (2::nat)" by simp
  have h2: "bufferSize stream2 = Num (int 2)" by (simp add: stream2_def new_DataObservable_def)
  have h3: "buffered stream2 = []" by (simp add: stream2_def new_DataObservable_def buffered_def)
  from bounded_buffer [OF h1 h2 h3, of "[5, 6, 7]"]
  have "arrays (publish_all [5, 6, 7] stream2) (getBuffer (publish_all [5, 6, 7] stream2)) = [6, 7]"
    by simp
  moreover from bounded_buffer [OF h1 h2 h3, of "[5]", THEN conjunct1, rule_format, of 1]
  have "buffered (publish_all [5] stream2) = [5]"
    by simp
  ultimately show ?thesis using h1 h2 h3 by simp
qed

section \<open>Delivery at a publish\<close>

lemma filteredObserver_calls:
  "filteredObserver ob v st = (r, st') \<Longrightarrow>
     calls st' = calls st @ (if eligible st v ob then [(ob, v)] else [])
     \<and> (r \<noteq> None \<longleftrightarrow> throwing st v ob)"
  by (auto simp: filteredObserver_def invoke_def eligible_def throwing_def throws_on_def
      passes_def split: option.splits sum.splits if_splits)

lemma filteredObserver_thrown:
  "closures st ob = Some c \<Longrightarrow> \<not> paused c \<Longrightarrow> passes (filter_fn c) v \<Longrightarrow>
     fst (filteredObserver ob v st) = map_option Thrown (cb_call (callback c) v)"
  by (auto simp: filteredObserver_def invoke_def passes_def split: option.splits sum.splits)

lemma eligible_cong: "closures st' = closures st \<Longrightarrow> eligible st' v = eligible st v"
  by (rule ext) (simp add: eligible_def)

lemma throwing_cong: "closures st' = closures st \<Longrightarrow> throwing st' v = throwing st v"
  by (rule ext) (simp add: throwing_def)

lemma reached_cong:
  assumes "closures st' = closures st"
  shows "reached st' v obs = reached st v obs"
  by (induction obs) (simp_all add: throwing_cong [OF assms])

lemma eligible_update [simp]:
  "eligible (st\<lparr>arrays := a\<rparr>) = eligible st"
  "eligible (st\<lparr>observerState := m\<rparr>) = eligible st"
  by (intro ext, simp add: eligible_def)+

lemma throwing_update [simp]:
  "throwing (st\<lparr>arrays := a\<rparr>) = throwing st"
  "throwing (st\<lparr>observerState := m\<rparr>) = throwing st"
  by (intro ext, simp add: throwing_def)+

lemma reached_update [simp]:
  "reached (st\<lparr>arrays := a\<rparr>) v obs = reached st v obs"
  "reached (st\<lparr>observerState := m\<rparr>) v obs = reached st v obs"
  by (induction obs) simp_all

lemma notify_calls:
  "notify obs v st = (r, st') \<Longrightarrow>
     calls st' = calls st @ map (\<lambda>ob. (ob, v)) (filter (eligible st v) (reached st v obs))
     \<and> (r \<noteq> None \<longleftrightarrow> (\<exists>ob \<in> set obs. throwing st v ob))"
proof (induction obs arbitrary: st)
  case Nil
  then show ?case by simp
next
  case (Cons ob obs)
  let ?s0 = "st\<lparr>observerState := (observerState st)(filteredObserver_source \<mapsto> v)\<rparr>"
  obtain r1 st1 where f: "filteredObserver ob v ?s0 = (r1, st1)"
    by (cases "filteredObserver ob v ?s0")
  have c0: "closures ?s0 = closures st" by simp
  from filteredObserver_frame [OF f] have c1: "closures st1 = closures st"
    by (simp add: same_heap_def)
  from filteredObserver_calls [OF f]
  have k1: "calls st1 = calls st @ (if eligible st v ob then [(ob, v)] else [])"
    and t1: "r1 \<noteq> None \<longleftrightarrow> throwing st v ob"
    by simp_all
  show ?case
  proof (cases r1)
    case None
    with Cons.prems f have n: "notify obs v st1 = (r, st')" by simp
    from None t1 have nt: "\<not> throwing st v ob" by simp
    from Cons.IH [OF n] k1 nt show ?thesis
      by (simp add: eligible_cong [OF c1] throwing_cong [OF c1] reached_cong [OF c1])
  next
    case (Some e)
    with Cons.prems f have "st' = st1" "r = Some e" by simp_all
    moreover from Some t1 have "throwing st v ob" by simp
    ultimately show ?thesis using k1 by simp
  qed
qed

lemma notify_first_throw:
  assumes "\<forall>p \<in> set pre. \<not> throwing st v p"
    and "closures st ob = Some c" and "\<not> paused c" and "passes (filter_fn c) v"
    and "cb_call (callback c) v = Some x"
  shows "fst (notify (pre @ ob # post) v st) = Some (Thrown x)"
  using assms
proof (induction pre arbitrary: st)
  case Nil
  let ?s0 = "st\<lparr>observerState := (observerState st)(filteredObserver_source \<mapsto> v)\<rparr>"
  have "closures ?s0 ob = Some c" using Nil.prems by simp
  from filteredObserver_thrown [OF this Nil.prems(3) Nil.prems(4)] Nil.prems(5)
  have "fst (filteredObserver ob v ?s0) = Some (Thrown x)" by simp
  then show ?case by (cases "filteredObserver ob v ?s0") simp
next
  case (Cons q pre)
  let ?s0 = "st\<lparr>observerState := (observerState st)(filteredObserver_source \<mapsto> v)\<rparr>"
  obtain r1 st1 where f: "filteredObserver q v ?s0 = (r1, st1)"
    by (cases "filteredObserver q v ?s0")
  have c0: "closures ?s0 = closures st" by simp
  from filteredObserver_frame [OF f] have c1: "closures st1 = closures st"
    by (simp add: same_heap_def)
  from filteredObserver_calls [OF f] Cons.prems(1)
  have r1: "r1 = None" by simp
  have "fst (notify (pre @ ob # post) v st1) = Some (Thrown x)"
  proof (rule Cons.IH)
    show "\<forall>p \<in> set pre. \<not> throwing st1 v p"
      using Cons.prems(1) by (simp add: throwing_cong [OF c1])
    show "closures st1 ob = Some c" using Cons.prems(2) c1 by simp
  qed (rule Cons.prems(3) Cons.prems(4) Cons.prems(5))+
  with f r1 show ?case by simp
qed

lemma reached_quiet: "\<forall>ob \<in> set obs. \<not> throwing st v ob \<Longrightarrow> reached st v obs = obs"
  by (induction obs) simp_all

lemma reached_split:
  "\<forall>ob \<in> set pre. \<not> throwing st v ob \<Longrightarrow> throwing st v ob \<Longrightarrow>
     reached st v (pre @ ob # post) = pre @ [ob]"
  by (induction pre) simp_all

text \<open>The state in which the delivery pass of \<^verbatim>\<open>setState\<close> starts.\<close>

lemma setState_notify:
  "setState v st = notify (observers st) v
     (st\<lparr>arrays := (arrays st)(buffer st :=
        (if exceeds (length (arrays st (buffer st) @ [v])) (bufferSize st)
         then tl (arrays st (buffer st) @ [v]) else arrays st (buffer st) @ [v]))\<rparr>)"
  by (simp add: setState_def Let_def)

lemma setState_calls:
  assumes "setState v st = (r, st')"
  shows "calls st' = calls st @ map (\<lambda>ob. (ob, v)) (filter (eligible st v) (reached st v (observers st)))"
    and "r \<noteq> None \<longleftrightarrow> (\<exists>ob \<in> set (observers st). throwing st v ob)"
proof -
  let ?st1 = "st\<lparr>arrays := (arrays st)(buffer st :=
     (if exceeds (length (arrays st (buffer st) @ [v])) (bufferSize st)
      then tl (arrays st (buffer st) @ [v]) else arrays st (buffer st) @ [v]))\<rparr>"
  have c: "closures ?st1 = closures st" and k: "calls ?st1 = calls st"
    by simp_all
  from assms have "notify (observers st) v ?st1 = (r, st')"
    by (simp add: setState_notify)
  from notify_calls [OF this]
  show "calls st' = calls st @ map (\<lambda>ob. (ob, v)) (filter (eligible st v) (reached st v (observers st)))"
    and "r \<noteq> None \<longleftrightarrow> (\<exists>ob \<in> set (observers st). throwing st v ob)"
    by simp_all
qed

text \<open>
  Claim C5. The subscription \<open>ob\<close> stands on \<open>observers\<close> after \<open>pre\<close> and before
  \<open>post\<close>; nothing in \<open>pre\<close> throws on \<open>v\<close>; \<open>ob\<close> is not paused, its filter accepts
  \<open>v\<close> and its callback throws \<open>x\<close>. Then \<^verbatim>\<open>setState(v)\<close> throws \<open>x\<close> to the
  publisher; the calls of this pass are those to the eligible subscriptions of \<open>pre\<close>
  and the one to \<open>ob\<close>, and none to a subscription of \<open>post\<close>; and the buffer holds
  \<open>v\<close> as after a publish that returned (pushed, then trimmed to \<^verbatim>\<open>bufferSize\<close>).
\<close>

theorem publish_fail_fast:
  assumes "observers st = pre @ ob # post"
    and "\<forall>p \<in> set pre. \<not> throwing st v p"
    and "closures st ob = Some c" and "\<not> paused c" and "passes (filter_fn c) v"
    and "cb_call (callback c) v = Some x"
  shows "fst (setState v st) = Some (Thrown x)
       \<and> calls (snd (setState v st)) =
           calls st @ map (\<lambda>p. (p, v)) (filter (eligible st v) pre) @ [(ob, v)]
       \<and> buffered (snd (setState v st)) =
           (if exceeds (length (buffered st @ [v])) (bufferSize st) then tl (buffered st @ [v])
            else buffered st @ [v])"
proof -
  let ?st1 = "st\<lparr>arrays := (arrays st)(buffer st :=
     (if exceeds (length (arrays st (buffer st) @ [v])) (bufferSize st)
      then tl (arrays st (buffer st) @ [v]) else arrays st (buffer st) @ [v]))\<rparr>"
  have c: "closures ?st1 = closures st" by simp
  have "fst (notify (pre @ ob # post) v ?st1) = Some (Thrown x)"
  proof (rule notify_first_throw)
    show "\<forall>p \<in> set pre. \<not> throwing ?st1 v p"
      using assms(2) by simp
    show "closures ?st1 ob = Some c" using assms(3) by simp
  qed (rule assms(4) assms(5) assms(6))+
  then have e: "fst (setState v st) = Some (Thrown x)"
    by (simp add: setState_notify assms(1))
  have t: "throwing st v ob"
    using assms(3-6) by (auto simp: throwing_def throws_on_def passes_def split: option.splits sum.splits)
  have el: "eligible st v ob"
    using assms(3-5) by (simp add: eligible_def)
  obtain r st' where s: "setState v st = (r, st')" by (cases "setState v st")
  from setState_calls(1) [OF s]
  have "calls st' = calls st @ map (\<lambda>p. (p, v)) (filter (eligible st v) pre) @ [(ob, v)]"
    by (simp add: assms(1) reached_split [OF assms(2) t] el)
  moreover have "buffered st' =
           (if exceeds (length (buffered st @ [v])) (bufferSize st) then tl (buffered st @ [v])
            else buffered st @ [v])"
    using buffered_setState [of v st] s by simp
  ultimately show ?thesis using s e by simp
qed

lemmas example_defs =
  stream2_def new_DataObservable_def quiet_callback_def failing_callback_def under30_def
  no_options_def subscribe_def replay_def slice_last_def pause_def Let_def

lemma stream_abc_facts:
  "observers stream_abc = [0, Suc 0, 2]"
  "closures stream_abc 0 = Some \<lparr> callback = quiet_callback, filter_fn = None,
      sub_replayPolicy = JUndefined, paused = False \<rparr>"
  "closures stream_abc (Suc 0) = Some \<lparr> callback = quiet_callback, filter_fn = under30,
      sub_replayPolicy = JUndefined, paused = False \<rparr>"
  "closures stream_abc 2 = Some \<lparr> callback = quiet_callback, filter_fn = None,
      sub_replayPolicy = JUndefined, paused = True \<rparr>"
  "calls stream_abc = []"
  by (simp_all add: stream_abc_def example_defs)

lemma stream_fail_facts:
  "observers stream_fail = [0, Suc 0, 2]"
  "closures stream_fail 0 = Some \<lparr> callback = quiet_callback, filter_fn = None,
      sub_replayPolicy = JUndefined, paused = False \<rparr>"
  "closures stream_fail (Suc 0) = Some \<lparr> callback = failing_callback, filter_fn = None,
      sub_replayPolicy = JUndefined, paused = False \<rparr>"
  "closures stream_fail 2 = Some \<lparr> callback = quiet_callback, filter_fn = None,
      sub_replayPolicy = JUndefined, paused = False \<rparr>"
  "calls stream_fail = []" "buffered stream_fail = []" "bufferSize stream_fail = Num 2"
  by (simp_all add: stream_fail_def example_defs buffered_def)

theorem publish_fail_fast_witness:
  "observers stream_fail = [0] @ 1 # [2]
   \<and> \<not> throwing stream_fail 7 0
   \<and> cb_call failing_callback 7 = Some (JStr ''boom'')
   \<and> eligible stream_fail 7 2
   \<and> fst (setState 7 stream_fail) = Some (Thrown (JStr ''boom''))
   \<and> calls (snd (setState 7 stream_fail)) = [(0, 7), (1, 7)]
   \<and> buffered (snd (setState 7 stream_fail)) = [7]"
proof -
  let ?c = "\<lparr> callback = failing_callback, filter_fn = None,
      sub_replayPolicy = JUndefined, paused = False \<rparr> :: nat subscription"
  have h1: "observers stream_fail = [0] @ 1 # [2]" by (simp add: stream_fail_facts)
  have t0: "\<not> throwing stream_fail 7 0"
    by (simp add: throwing_def throws_on_def stream_fail_facts quiet_callback_def)
  then have h2: "\<forall>p \<in> set [0]. \<not> throwing stream_fail 7 p" by simp
  have h3: "closures stream_fail 1 = Some ?c" by (simp add: stream_fail_facts)
  have h4: "\<not> paused ?c" by simp
  have h5: "passes (filter_fn ?c) 7" by (simp add: passes_def)
  have h6: "cb_call (callback ?c) 7 = Some (JStr ''boom'')" by (simp add: failing_callback_def)
  have e: "eligible stream_fail 7 0" "eligible stream_fail 7 2"
    by (simp_all add: eligible_def passes_def stream_fail_facts)
  from publish_fail_fast [OF h1 h2 h3 h4 h5 h6] t0 h6 e show ?thesis
    by (simp add: stream_fail_facts)
qed

section \<open>Replay at subscribe and at resume\<close>

lemma replay_each_frame: "replay_each ob c vs st = (r, st') \<Longrightarrow> same_heap st st'"
proof (induction vs arbitrary: st)
  case Nil
  then show ?case by (simp add: same_heap_def)
next
  case (Cons v vs)
  let ?s0 = "st\<lparr>observerState := (observerState st)(cb_source (callback c) \<mapsto> v)\<rparr>"
  obtain r1 st1 where f: "filteredObserver ob v ?s0 = (r1, st1)"
    by (cases "filteredObserver ob v ?s0")
  from filteredObserver_frame [OF f] have h1: "same_heap st st1"
    by (simp add: same_heap_def)
  show ?case
  proof (cases r1)
    case None
    with Cons.prems f have "replay_each ob c vs st1 = (r, st')" by simp
    from Cons.IH [OF this] h1 show ?thesis by (simp add: same_heap_def)
  next
    case (Some e)
    with Cons.prems f have "st' = st1" by simp
    with h1 show ?thesis by simp
  qed
qed

lemma replay_frame: "replay ob st = (r, st') \<Longrightarrow> same_heap st st'"
  by (auto simp: replay_def same_heap_def split: option.splits if_splits
      dest!: replay_each_frame)

lemma replay_each_calls:
  assumes "\<forall>v \<in> set vs. \<not> throwing st v ob"
  shows "fst (replay_each ob c vs st) = None
       \<and> calls (snd (replay_each ob c vs st)) =
           calls st @ map (Pair ob) (filter (\<lambda>v. eligible st v ob) vs)"
  using assms
proof (induction vs arbitrary: st)
  case Nil
  then show ?case by simp
next
  case (Cons v vs)
  let ?s0 = "st\<lparr>observerState := (observerState st)(cb_source (callback c) \<mapsto> v)\<rparr>"
  obtain r1 st1 where f: "filteredObserver ob v ?s0 = (r1, st1)"
    by (cases "filteredObserver ob v ?s0")
  from filteredObserver_frame [OF f] have c1: "closures st1 = closures st"
    by (simp add: same_heap_def)
  from filteredObserver_calls [OF f] Cons.prems
  have r1: "r1 = None"
    and k1: "calls st1 = calls st @ (if eligible st v ob then [(ob, v)] else [])"
    by simp_all
  have "\<forall>w \<in> set vs. \<not> throwing st1 w ob"
    using Cons.prems by (simp add: throwing_cong [OF c1])
  from Cons.IH [OF this] f r1 k1 show ?case
    by (simp add: eligible_cong [OF c1])
qed

lemma slice_last_selected: "slice_last buf = selected (JStr ''last'') buf"
  by (cases buf rule: rev_cases) (simp_all add: slice_last_def selected_def)

text \<open>The values \<^verbatim>\<open>replay\<close> runs over are those the effective policy selects.\<close>

lemma replay_selected:
  assumes "closures st ob = Some c"
  shows "replay ob st =
     replay_each ob c
       (selected (effective_policy (sub_replayPolicy c) (replayPolicy st)) (buffered st)) st"
  using assms
  by (auto simp: replay_def effective_policy_def slice_last_selected buffered_def)
     (simp_all add: selected_def)

lemma replay_calls:
  assumes "closures st ob = Some c"
    and "\<forall>v \<in> set (selected (effective_policy (sub_replayPolicy c) (replayPolicy st)) (buffered st)).
           \<not> throwing st v ob"
  shows "fst (replay ob st) = None
       \<and> calls (snd (replay ob st)) =
           calls st @ map (Pair ob) (filter (\<lambda>v. eligible st v ob)
             (selected (effective_policy (sub_replayPolicy c) (replayPolicy st)) (buffered st)))"
  using replay_each_calls [OF assms(2), of c] by (simp add: replay_selected [OF assms(1)])

lemma replay_each_throws:
  "fst (replay_each ob c vs st) \<noteq> None \<longleftrightarrow> (\<exists>v \<in> set vs. throwing st v ob)"
proof (induction vs arbitrary: st)
  case Nil
  then show ?case by simp
next
  case (Cons v vs)
  let ?s0 = "st\<lparr>observerState := (observerState st)(cb_source (callback c) \<mapsto> v)\<rparr>"
  obtain r1 st1 where f: "filteredObserver ob v ?s0 = (r1, st1)"
    by (cases "filteredObserver ob v ?s0")
  from filteredObserver_frame [OF f] have c1: "closures st1 = closures st"
    by (simp add: same_heap_def)
  from filteredObserver_calls [OF f] have t1: "r1 \<noteq> None \<longleftrightarrow> throwing st v ob" by simp
  show ?case
  proof (cases r1)
    case None
    with t1 have "\<not> throwing st v ob" by simp
    with None f Cons.IH [of st1] show ?thesis
      by (simp add: throwing_cong [OF c1])
  next
    case (Some e)
    with t1 have "throwing st v ob" by simp
    with Some f show ?thesis by simp
  qed
qed

lemma replay_throws:
  assumes "closures st ob = Some c"
  shows "fst (replay ob st) \<noteq> None \<longleftrightarrow>
     (\<exists>v \<in> set (selected (effective_policy (sub_replayPolicy c) (replayPolicy st)) (buffered st)).
        throwing st v ob)"
  by (simp only: replay_selected [OF assms] replay_each_throws)

lemma subscribe_frame:
  assumes "subscribe cb opts st = (r, st')"
  shows "observers st' = observers st @ [next_closure st]"
    and "closures st' = (closures st)(next_closure st \<mapsto>
           \<lparr> callback = cb, filter_fn = opt_filter opts,
             sub_replayPolicy = opt_replayPolicy opts, paused = False \<rparr>)"
    and "arrays st' = arrays st" and "buffer st' = buffer st"
    and "bufferSize st' = bufferSize st" and "replayPolicy st' = replayPolicy st"
    and "next_closure st' = Suc (next_closure st)"
proof -
  let ?c = "\<lparr> callback = cb, filter_fn = opt_filter opts,
             sub_replayPolicy = opt_replayPolicy opts, paused = False \<rparr>"
  let ?st1 = "st\<lparr>closures := (closures st)(next_closure st \<mapsto> ?c),
                   next_closure := Suc (next_closure st),
                   observers := observers st @ [next_closure st]\<rparr>"
  obtain r2 st2 where rp: "replay (next_closure st) ?st1 = (r2, st2)"
    by (cases "replay (next_closure st) ?st1")
  with assms have "st' = st2"
    by (auto simp: subscribe_def Let_def split: option.splits)
  with replay_frame [OF rp]
  show "observers st' = observers st @ [next_closure st]"
    and "closures st' = (closures st)(next_closure st \<mapsto> ?c)"
    and "arrays st' = arrays st" and "buffer st' = buffer st"
    and "bufferSize st' = bufferSize st" and "replayPolicy st' = replayPolicy st"
    and "next_closure st' = Suc (next_closure st)"
    by (simp_all add: same_heap_def)
qed

text \<open>
  Claim C3. \<^verbatim>\<open>setState(v)\<close> calls, before it returns or throws, the callbacks of
  exactly the subscriptions the pass gets to that are not paused and whose filter (if
  present) returns true for \<open>v\<close>, each once, in the order of \<open>observers\<close>. It
  returns normally exactly when no subscriber's code throws on \<open>v\<close>, and then the
  pass gets to every subscription: a subscription on the list receives \<open>v\<close> if and
  only if it is not paused and its filter accepts \<open>v\<close>. The order of \<open>observers\<close> is
  the order of subscription: \<^verbatim>\<open>subscribe\<close> puts the new one last.
\<close>

theorem publish_delivers:
  "calls (snd (setState v st)) =
     calls st @ map (\<lambda>ob. (ob, v)) (filter (eligible st v) (reached st v (observers st)))
   \<and> (fst (setState v st) = None \<longleftrightarrow> (\<forall>ob \<in> set (observers st). \<not> throwing st v ob))
   \<and> ((\<forall>ob \<in> set (observers st). \<not> throwing st v ob) \<longrightarrow>
        calls (snd (setState v st)) =
          calls st @ map (\<lambda>ob. (ob, v)) (filter (eligible st v) (observers st))
      \<and> (\<forall>ob c. ob \<in> set (observers st) \<longrightarrow> closures st ob = Some c \<longrightarrow>
            ((ob, v) \<in> set (drop (length (calls st)) (calls (snd (setState v st))))
               \<longleftrightarrow> \<not> paused c \<and> passes (filter_fn c) v)))
   \<and> observers (snd (subscribe cb opts st)) = observers st @ [next_closure st]"
proof -
  obtain r st' where s: "setState v st = (r, st')" by (cases "setState v st")
  note k = setState_calls [OF s]
  have A: "calls (snd (setState v st)) =
     calls st @ map (\<lambda>ob. (ob, v)) (filter (eligible st v) (reached st v (observers st)))"
    using k(1) s by simp
  have B: "fst (setState v st) = None \<longleftrightarrow> (\<forall>ob \<in> set (observers st). \<not> throwing st v ob)"
    using k(2) s by auto
  have C: "(\<forall>ob \<in> set (observers st). \<not> throwing st v ob) \<longrightarrow>
        calls (snd (setState v st)) =
          calls st @ map (\<lambda>ob. (ob, v)) (filter (eligible st v) (observers st))
      \<and> (\<forall>ob c. ob \<in> set (observers st) \<longrightarrow> closures st ob = Some c \<longrightarrow>
            ((ob, v) \<in> set (drop (length (calls st)) (calls (snd (setState v st))))
               \<longleftrightarrow> \<not> paused c \<and> passes (filter_fn c) v))"
  proof
    assume q: "\<forall>ob \<in> set (observers st). \<not> throwing st v ob"
    have e: "calls (snd (setState v st)) =
          calls st @ map (\<lambda>ob. (ob, v)) (filter (eligible st v) (observers st))"
      using A by (simp add: reached_quiet [OF q])
    have "(ob, v) \<in> set (drop (length (calls st)) (calls (snd (setState v st))))
        \<longleftrightarrow> \<not> paused c \<and> passes (filter_fn c) v"
      if "ob \<in> set (observers st)" and "closures st ob = Some c" for ob c
      using that e by (auto simp: eligible_def)
    with e show "calls (snd (setState v st)) =
          calls st @ map (\<lambda>ob. (ob, v)) (filter (eligible st v) (observers st))
      \<and> (\<forall>ob c. ob \<in> set (observers st) \<longrightarrow> closures st ob = Some c \<longrightarrow>
            ((ob, v) \<in> set (drop (length (calls st)) (calls (snd (setState v st))))
               \<longleftrightarrow> \<not> paused c \<and> passes (filter_fn c) v))"
      by blast
  qed
  have D: "observers (snd (subscribe cb opts st)) = observers st @ [next_closure st]"
    by (rule subscribe_frame(1) [of cb opts st "fst (subscribe cb opts st)"]) simp
  from A B C D show ?thesis by blast
qed

theorem publish_delivers_witness:
  "observers stream_abc = [0, 1, 2]
   \<and> \<not> throwing stream_abc 25 0 \<and> \<not> throwing stream_abc 25 1 \<and> \<not> throwing stream_abc 25 2
   \<and> fst (setState 25 stream_abc) = None
   \<and> calls (snd (setState 25 stream_abc)) = [(0, 25), (1, 25)]
   \<and> calls (snd (setState 35 stream_abc)) = [(0, 35)]"
proof -
  have t: "\<not> throwing stream_abc v 0" "\<not> throwing stream_abc v 1" "\<not> throwing stream_abc v 2"
    for v
    by (simp_all add: throwing_def throws_on_def stream_abc_facts quiet_callback_def under30_def)
  then have h: "\<forall>ob \<in> set (observers stream_abc). \<not> throwing stream_abc v ob" for v
    by (simp add: stream_abc_facts)
  have e: "eligible stream_abc v 0" "eligible stream_abc v (Suc 0) \<longleftrightarrow> v < 30"
    "\<not> eligible stream_abc v 2" for v
    by (simp_all add: eligible_def passes_def stream_abc_facts under30_def)
  note d = publish_delivers [of _ stream_abc]
  from d [of 25, THEN conjunct2, THEN conjunct1] h
  have r: "fst (setState 25 stream_abc) = None" by simp
  from d [of 25, THEN conjunct2, THEN conjunct2, THEN conjunct1, THEN mp, OF h, THEN conjunct1]
  have k25: "calls (snd (setState 25 stream_abc)) = [(0, 25), (1, 25)]"
    by (simp add: stream_abc_facts e)
  from d [of 35, THEN conjunct2, THEN conjunct2, THEN conjunct1, THEN mp, OF h, THEN conjunct1]
  have k35: "calls (snd (setState 35 stream_abc)) = [(0, 35)]"
    by (simp add: stream_abc_facts e)
  from t r k25 k35 show ?thesis by (simp add: stream_abc_facts)
qed

text \<open>
  Claim C2. \<open>p\<close> is the effective policy of the new subscription: the option
  \<^verbatim>\<open>replayPolicy\<close> if given, else the stream's default. \<^verbatim>\<open>subscribe\<close> returns a handle
  exactly when the subscriber's code throws on none of the values \<open>p\<close> selects; and
  then, before it returns, the new subscription has received exactly the selected
  values its filter accepts, in buffer order: with \<^verbatim>\<open>'last'\<close> the most recent buffered
  value, once (nothing when the buffer is empty), with \<^verbatim>\<open>'all'\<close> every buffered value
  from oldest to newest.
\<close>

theorem subscribe_replays:
  assumes "p = effective_policy (opt_replayPolicy opts) (replayPolicy st)"
  shows "((\<exists>h. fst (subscribe cb opts st) = Inr h)
            \<longleftrightarrow> (\<forall>v \<in> set (selected p (buffered st)). \<not> throws_on (opt_filter opts) cb v))
       \<and> ((\<forall>v \<in> set (selected p (buffered st)). \<not> throws_on (opt_filter opts) cb v) \<longrightarrow>
            fst (subscribe cb opts st) = Inr (next_closure st)
          \<and> calls (snd (subscribe cb opts st)) =
              calls st @ map (Pair (next_closure st))
                (filter (passes (opt_filter opts)) (selected p (buffered st)))
          \<and> (p = JStr ''last'' \<longrightarrow> buffered st = [] \<longrightarrow>
               calls (snd (subscribe cb opts st)) = calls st)
          \<and> (p = JStr ''last'' \<longrightarrow> buffered st \<noteq> [] \<longrightarrow>
               calls (snd (subscribe cb opts st)) =
                 calls st @ (if passes (opt_filter opts) (last (buffered st))
                             then [(next_closure st, last (buffered st))] else []))
          \<and> (p = JStr ''all'' \<longrightarrow>
               calls (snd (subscribe cb opts st)) =
                 calls st @ map (Pair (next_closure st))
                   (filter (passes (opt_filter opts)) (buffered st))))"
proof -
  let ?ob = "next_closure st"
  let ?c = "\<lparr> callback = cb, filter_fn = opt_filter opts,
             sub_replayPolicy = opt_replayPolicy opts, paused = False \<rparr>"
  let ?st1 = "st\<lparr>closures := (closures st)(?ob \<mapsto> ?c),
                   next_closure := Suc ?ob,
                   observers := observers st @ [?ob]\<rparr>"
  let ?quiet = "\<forall>v \<in> set (selected p (buffered st)). \<not> throws_on (opt_filter opts) cb v"
  have c: "closures ?st1 ?ob = Some ?c" by simp
  have b: "buffered ?st1 = buffered st" by (simp add: buffered_def)
  have p: "effective_policy (sub_replayPolicy ?c) (replayPolicy ?st1) = p"
    by (simp add: assms(1))
  have el: "eligible ?st1 v ?ob = passes (opt_filter opts) v" for v
    by (simp add: eligible_def)
  have th: "throwing ?st1 v ?ob = throws_on (opt_filter opts) cb v" for v
    by (simp add: throwing_def)
  have ret: "fst (replay ?ob ?st1) = None \<longleftrightarrow> ?quiet"
    using replay_throws [OF c] unfolding p b th by blast
  have sub: "fst (subscribe cb opts st) =
      (case fst (replay ?ob ?st1) of None \<Rightarrow> Inr ?ob | Some e \<Rightarrow> Inl e)"
    and st': "snd (subscribe cb opts st) = snd (replay ?ob ?st1)"
    by (cases "replay ?ob ?st1"; simp add: subscribe_def Let_def split: option.splits)+
  have A: "(\<exists>h. fst (subscribe cb opts st) = Inr h) \<longleftrightarrow> ?quiet"
    using ret by (auto simp: sub split: option.splits)
  have B: "?quiet \<longrightarrow>
            fst (subscribe cb opts st) = Inr (next_closure st)
          \<and> calls (snd (subscribe cb opts st)) =
              calls st @ map (Pair (next_closure st))
                (filter (passes (opt_filter opts)) (selected p (buffered st)))
          \<and> (p = JStr ''last'' \<longrightarrow> buffered st = [] \<longrightarrow>
               calls (snd (subscribe cb opts st)) = calls st)
          \<and> (p = JStr ''last'' \<longrightarrow> buffered st \<noteq> [] \<longrightarrow>
               calls (snd (subscribe cb opts st)) =
                 calls st @ (if passes (opt_filter opts) (last (buffered st))
                             then [(next_closure st, last (buffered st))] else []))
          \<and> (p = JStr ''all'' \<longrightarrow>
               calls (snd (subscribe cb opts st)) =
                 calls st @ map (Pair (next_closure st))
                   (filter (passes (opt_filter opts)) (buffered st)))"
  proof
    assume q: ?quiet
    then have "\<forall>v \<in> set (selected (effective_policy (sub_replayPolicy ?c) (replayPolicy ?st1))
            (buffered ?st1)). \<not> throwing ?st1 v ?ob"
      unfolding p b th .
    from replay_calls [OF c this]
    have k: "calls (snd (subscribe cb opts st)) =
        calls st @ map (Pair ?ob) (filter (passes (opt_filter opts)) (selected p (buffered st)))"
      unfolding p b el st' by simp
    have r: "fst (subscribe cb opts st) = Inr ?ob"
      using ret q by (simp add: sub)
    have l: "selected (JStr ''last'') (buffered st) =
        (if buffered st = [] then [] else [last (buffered st)])"
      by (cases "buffered st" rule: rev_cases) (simp_all add: selected_def)
    have a: "selected (JStr ''all'') (buffered st) = buffered st"
      by (simp add: selected_def)
    from r k l a show "fst (subscribe cb opts st) = Inr (next_closure st)
          \<and> calls (snd (subscribe cb opts st)) =
              calls st @ map (Pair (next_closure st))
                (filter (passes (opt_filter opts)) (selected p (buffered st)))
          \<and> (p = JStr ''last'' \<longrightarrow> buffered st = [] \<longrightarrow>
               calls (snd (subscribe cb opts st)) = calls st)
          \<and> (p = JStr ''last'' \<longrightarrow> buffered st \<noteq> [] \<longrightarrow>
               calls (snd (subscribe cb opts st)) =
                 calls st @ (if passes (opt_filter opts) (last (buffered st))
                             then [(next_closure st, last (buffered st))] else []))
          \<and> (p = JStr ''all'' \<longrightarrow>
               calls (snd (subscribe cb opts st)) =
                 calls st @ map (Pair (next_closure st))
                   (filter (passes (opt_filter opts)) (buffered st)))"
      by auto
  qed
  from A B show ?thesis by blast
qed

lemma stream56_facts:
  "buffered stream56 = [5, 6]" "replayPolicy stream56 = JStr ''last''" "next_closure stream56 = 0"
  "calls stream56 = []" "observers stream56 = []" "bufferSize stream56 = Num 2"
  by (simp_all add: stream56_def stream2_def new_DataObservable_def setState_def buffered_def)

theorem subscribe_replays_witness:
  "JStr ''last'' = effective_policy JUndefined (replayPolicy stream56)
   \<and> \<not> throws_on under30 quiet_callback 6
   \<and> fst (subscribe quiet_callback \<lparr>opt_filter = under30, opt_replayPolicy = JUndefined\<rparr> stream56)
       = Inr 0
   \<and> calls (snd (subscribe quiet_callback
        \<lparr>opt_filter = under30, opt_replayPolicy = JUndefined\<rparr> stream56)) = [(0, 6)]
   \<and> JStr ''all'' = effective_policy (JStr ''all'') (replayPolicy stream56)
   \<and> \<not> throws_on under30 quiet_callback 5
   \<and> calls (snd (subscribe quiet_callback
        \<lparr>opt_filter = under30, opt_replayPolicy = JStr ''all''\<rparr> stream56)) = [(0, 5), (0, 6)]"
proof -
  let ?o1 = "\<lparr>opt_filter = under30, opt_replayPolicy = JUndefined\<rparr>"
  let ?o2 = "\<lparr>opt_filter = under30, opt_replayPolicy = JStr ''all''\<rparr>"
  have q: "\<not> throws_on under30 quiet_callback v" for v
    by (simp add: throws_on_def under30_def quiet_callback_def)
  have p1: "JStr ''last'' = effective_policy (opt_replayPolicy ?o1) (replayPolicy stream56)"
    by (simp add: effective_policy_def stream56_facts)
  have p2: "JStr ''all'' = effective_policy (opt_replayPolicy ?o2) (replayPolicy stream56)"
    by (simp add: effective_policy_def)
  have h1: "\<forall>v \<in> set (selected (JStr ''last'') (buffered stream56)).
      \<not> throws_on (opt_filter ?o1) quiet_callback v"
    by (simp add: q)
  have h2: "\<forall>v \<in> set (selected (JStr ''all'') (buffered stream56)).
      \<not> throws_on (opt_filter ?o2) quiet_callback v"
    by (simp add: q)
  have f: "passes under30 5" "passes under30 6"
    by (simp_all add: passes_def under30_def)
  have e1: "JStr ''last'' = effective_policy JUndefined (replayPolicy stream56)"
    and e2: "JStr ''all'' = effective_policy (JStr ''all'') (replayPolicy stream56)"
    by (simp_all add: effective_policy_def stream56_facts)
  from subscribe_replays [OF p1, THEN conjunct2, THEN mp, OF h1]
  have r1: "fst (subscribe quiet_callback ?o1 stream56) = Inr 0"
    and r2: "calls (snd (subscribe quiet_callback ?o1 stream56)) = [(0, 6)]"
    by (simp_all add: stream56_facts f selected_def)
  from subscribe_replays [OF p2, THEN conjunct2, THEN mp, OF h2]
  have r3: "calls (snd (subscribe quiet_callback ?o2 stream56)) = [(0, 5), (0, 6)]"
    by (simp add: stream56_facts f selected_def)
  from e1 e2 q [of 5] q [of 6] r1 r2 r3 show ?thesis by blast
qed

lemma setState_receives:
  assumes "\<forall>p \<in> set (observers st). \<not> throwing st v p"
  shows "fst (setState v st) = None"
    and "calls (snd (setState v st)) =
           calls st @ map (\<lambda>p. (p, v)) (filter (eligible st v) (observers st))"
    and "ob \<in> set (observers st) \<Longrightarrow>
           (ob, v) \<in> set (drop (length (calls st)) (calls (snd (setState v st))))
             \<longleftrightarrow> eligible st v ob"
proof -
  obtain r st' where s: "setState v st = (r, st')" by (cases "setState v st")
  from setState_calls [OF s] assms
  have r: "r = None"
    and k: "calls st' = calls st @ map (\<lambda>p. (p, v)) (filter (eligible st v) (observers st))"
    by (simp_all add: reached_quiet)
  from s r show "fst (setState v st) = None" by simp
  from s k show "calls (snd (setState v st)) =
           calls st @ map (\<lambda>p. (p, v)) (filter (eligible st v) (observers st))" by simp
  from s k show "ob \<in> set (observers st) \<Longrightarrow>
           (ob, v) \<in> set (drop (length (calls st)) (calls (snd (setState v st))))
             \<longleftrightarrow> eligible st v ob" by auto
qed

lemma paused_publish_all:
  assumes "closures st ob = Some c" and "paused c"
  shows "closures (publish_all vs st) = closures st
       \<and> (\<exists>n. calls (publish_all vs st) = calls st @ n \<and> (\<forall>x. (ob, x) \<notin> set n))"
  using assms
proof (induction vs arbitrary: st)
  case Nil
  then show ?case by simp
next
  case (Cons v vs)
  obtain r st1 where s: "setState v st = (r, st1)" by (cases "setState v st")
  have c1: "closures st1 = closures st" by (rule setState_frame(4) [OF s])
  have ne: "\<not> eligible st v ob" using Cons.prems by (simp add: eligible_def)
  from setState_calls(1) [OF s] ne
  obtain n1 where k1: "calls st1 = calls st @ n1" and n1: "\<forall>x. (ob, x) \<notin> set n1"
    by auto
  from Cons.prems c1 have "closures st1 ob = Some c" by simp
  from Cons.IH [OF this Cons.prems(2)]
  obtain n2 where "closures (publish_all vs st1) = closures st1"
    and "calls (publish_all vs st1) = calls st1 @ n2" and "\<forall>x. (ob, x) \<notin> set n2"
    by auto
  with s c1 k1 n1 show ?case by auto
qed

lemma resume_closures:
  assumes "closures st ob = Some c"
  shows "closures (snd (resume ob st)) = (closures st)(ob \<mapsto> c\<lparr>paused := False\<rparr>)"
    and "observers (snd (resume ob st)) = observers st"
    and "buffered (snd (resume ob st)) = buffered st"
proof -
  let ?s = "st\<lparr>closures := (closures st)(ob \<mapsto> c\<lparr>paused := False\<rparr>)\<rparr>"
  obtain r st' where rp: "replay ob ?s = (r, st')" by (cases "replay ob ?s")
  from replay_frame [OF rp] rp assms
  show "closures (snd (resume ob st)) = (closures st)(ob \<mapsto> c\<lparr>paused := False\<rparr>)"
    and "observers (snd (resume ob st)) = observers st"
    and "buffered (snd (resume ob st)) = buffered st"
    by (simp_all add: resume_def same_heap_def buffered_def)
qed

text \<open>
  Claim C6. \<open>c\<close> is the closure of the subscription \<open>ob\<close> and \<open>p\<close> its effective
  policy. While it is paused, no value of any sequence \<open>vs\<close> of publishes is delivered
  to it. \<^verbatim>\<open>resume()\<close> sets \<^verbatim>\<open>paused\<close> to false and replays as \<^verbatim>\<open>subscribe\<close> does, on
  the buffer as it is now: it returns normally exactly when the subscriber's code
  throws on none of the values \<open>p\<close> selects, and then it has delivered exactly the
  selected values the filter accepts. After that a publish of \<open>w\<close> reaches the
  subscription again (if it is still subscribed and no subscriber throws on \<open>w\<close>)
  exactly when its filter accepts \<open>w\<close>.
\<close>

theorem pause_resume:
  assumes "closures st ob = Some c"
    and "p = effective_policy (sub_replayPolicy c) (replayPolicy st)"
  shows "(paused c \<longrightarrow>
            (\<forall>x. (ob, x) \<notin> set (drop (length (calls st)) (calls (publish_all vs st)))))
       \<and> closures (snd (resume ob st)) ob = Some (c\<lparr>paused := False\<rparr>)
       \<and> ((\<forall>v \<in> set (selected p (buffered st)). \<not> throws_on (filter_fn c) (callback c) v) \<longrightarrow>
            fst (resume ob st) = None
          \<and> calls (snd (resume ob st)) =
              calls st @ map (Pair ob) (filter (passes (filter_fn c)) (selected p (buffered st))))
       \<and> (ob \<in> set (observers st) \<longrightarrow>
            (\<forall>q \<in> set (observers st). \<not> throwing (snd (resume ob st)) w q) \<longrightarrow>
            ((ob, w) \<in> set (drop (length (calls (snd (resume ob st))))
                               (calls (snd (setState w (snd (resume ob st))))))
               \<longleftrightarrow> passes (filter_fn c) w))
       \<and> (fst (resume ob st) = None
            \<longleftrightarrow> (\<forall>v \<in> set (selected p (buffered st)). \<not> throws_on (filter_fn c) (callback c) v))"
proof -
  let ?c = "c\<lparr>paused := False\<rparr>"
  let ?s = "st\<lparr>closures := (closures st)(ob \<mapsto> ?c)\<rparr>"
  let ?st' = "snd (resume ob st)"
  have A: "paused c \<longrightarrow>
      (\<forall>x. (ob, x) \<notin> set (drop (length (calls st)) (calls (publish_all vs st))))"
  proof
    assume "paused c"
    from paused_publish_all [OF assms(1) this, of vs] show
      "\<forall>x. (ob, x) \<notin> set (drop (length (calls st)) (calls (publish_all vs st)))"
      by auto
  qed
  have cl: "closures ?st' = (closures st)(ob \<mapsto> ?c)"
    by (rule resume_closures(1) [OF assms(1)])
  then have B: "closures ?st' ob = Some ?c" by simp
  have rs: "resume ob st = replay ob ?s" using assms(1) by (simp add: resume_def)
  have c: "closures ?s ob = Some ?c" by simp
  have b: "buffered ?s = buffered st" by (simp add: buffered_def)
  have p: "effective_policy (sub_replayPolicy ?c) (replayPolicy ?s) = p"
    by (simp add: assms(2))
  have el: "eligible ?s v ob = passes (filter_fn c) v" for v
    by (simp add: eligible_def)
  have th: "throwing ?s v ob = throws_on (filter_fn c) (callback c) v" for v
    by (simp add: throwing_def)
  have C: "(\<forall>v \<in> set (selected p (buffered st)). \<not> throws_on (filter_fn c) (callback c) v) \<longrightarrow>
            fst (resume ob st) = None
          \<and> calls (snd (resume ob st)) =
              calls st @ map (Pair ob) (filter (passes (filter_fn c)) (selected p (buffered st)))"
  proof
    assume "\<forall>v \<in> set (selected p (buffered st)). \<not> throws_on (filter_fn c) (callback c) v"
    then have "\<forall>v \<in> set (selected (effective_policy (sub_replayPolicy ?c) (replayPolicy ?s))
            (buffered ?s)). \<not> throwing ?s v ob"
      unfolding p b th .
    from replay_calls [OF c this]
    show "fst (resume ob st) = None
          \<and> calls (snd (resume ob st)) =
              calls st @ map (Pair ob) (filter (passes (filter_fn c)) (selected p (buffered st)))"
      unfolding p b el rs by simp
  qed
  have D: "ob \<in> set (observers st) \<longrightarrow>
            (\<forall>q \<in> set (observers st). \<not> throwing ?st' w q) \<longrightarrow>
            ((ob, w) \<in> set (drop (length (calls ?st')) (calls (snd (setState w ?st'))))
               \<longleftrightarrow> passes (filter_fn c) w)"
  proof (intro impI)
    assume m: "ob \<in> set (observers st)" and q: "\<forall>q \<in> set (observers st). \<not> throwing ?st' w q"
    have o: "observers ?st' = observers st" by (rule resume_closures(2) [OF assms(1)])
    from q o have q': "\<forall>q \<in> set (observers ?st'). \<not> throwing ?st' w q" by simp
    from m o have m': "ob \<in> set (observers ?st')" by simp
    have "eligible ?st' w ob = passes (filter_fn c) w"
      by (simp add: eligible_def cl)
    with setState_receives(3) [OF q' m'] show
      "(ob, w) \<in> set (drop (length (calls ?st')) (calls (snd (setState w ?st'))))
               \<longleftrightarrow> passes (filter_fn c) w" by simp
  qed
  have E: "fst (resume ob st) = None
      \<longleftrightarrow> (\<forall>v \<in> set (selected p (buffered st)). \<not> throws_on (filter_fn c) (callback c) v)"
    using replay_throws [OF c] unfolding p b th rs by blast
  from A B C D E show ?thesis by blast
qed

lemma notify_one [simp]: "notify [ob] v st =
    filteredObserver ob v (st\<lparr>observerState := (observerState st)(filteredObserver_source \<mapsto> v)\<rparr>)"
  by (cases "filteredObserver ob v
      (st\<lparr>observerState := (observerState st)(filteredObserver_source \<mapsto> v)\<rparr>)")
    (auto split: option.splits)

lemma stream_paused_facts:
  "closures stream_paused 0 = Some \<lparr> callback = quiet_callback, filter_fn = None,
      sub_replayPolicy = JUndefined, paused = True \<rparr>"
  "observers stream_paused = [0]" "calls stream_paused = []"
  "replayPolicy stream_paused = JStr ''last''"
  by (simp_all add: stream_paused_def example_defs)

lemma stream_paused56_facts:
  "closures stream_paused56 0 = Some \<lparr> callback = quiet_callback,
      filter_fn = None, sub_replayPolicy = JUndefined, paused = True \<rparr>"
  "observers stream_paused56 = [0]"
  "calls stream_paused56 = []"
  "replayPolicy stream_paused56 = JStr ''last''"
  "buffered stream_paused56 = [5, 6]"
  by (simp_all add: stream_paused56_def stream_paused_def example_defs setState_def
      filteredObserver_def buffered_def)

theorem pause_resume_witness:
  "closures stream_paused 0 = Some \<lparr> callback = quiet_callback, filter_fn = None,
      sub_replayPolicy = JUndefined, paused = True \<rparr>
   \<and> calls (publish_all [5, 6] stream_paused) = calls stream_paused
   \<and> \<not> throws_on None quiet_callback 6
   \<and> fst (resume 0 stream_paused56) = None
   \<and> calls stream_resumed = [(0, 6)]
   \<and> \<not> throwing stream_resumed 7 0
   \<and> calls (snd (setState 7 stream_resumed)) = [(0, 6), (0, 7)]"
proof -
  let ?c = "\<lparr> callback = quiet_callback, filter_fn = None,
      sub_replayPolicy = JUndefined, paused = True \<rparr> :: nat subscription"
  let ?st = "stream_paused56"
  have c1: "closures stream_paused 0 = Some ?c" by (rule stream_paused_facts(1))
  have p1: "JStr ''last'' = effective_policy (sub_replayPolicy ?c) (replayPolicy stream_paused)"
    by (simp add: effective_policy_def stream_paused_facts)
  have c2: "closures ?st 0 = Some ?c" by (rule stream_paused56_facts(1))
  have p2: "JStr ''last'' = effective_policy (sub_replayPolicy ?c) (replayPolicy ?st)"
    by (simp add: effective_policy_def stream_paused56_facts)
  have q: "\<not> throws_on None quiet_callback v" for v
    by (simp add: throws_on_def quiet_callback_def)
  note b = pause_resume [OF c2 p2, where w = 7]
  have k0: "calls (publish_all [5, 6] stream_paused) = calls stream_paused"
    using stream_paused56_facts(3) by (simp add: stream_paused_facts stream_paused56_def)
  have cl: "closures stream_resumed 0 = Some (?c\<lparr>paused := False\<rparr>)"
    using b [THEN conjunct2, THEN conjunct1] by (simp add: stream_resumed_def)
  then have t: "\<not> throwing stream_resumed 7 0"
    by (simp add: throwing_def q)
  have r: "fst (resume 0 ?st) = None" and k1: "calls stream_resumed = [(0, 6)]"
    using b [THEN conjunct2, THEN conjunct2, THEN conjunct1]
    by (simp_all add: stream_resumed_def stream_paused56_facts q selected_def passes_def)
  have "(0, 7) \<in> set (drop (length (calls stream_resumed))
      (calls (snd (setState 7 stream_resumed))))"
    using b [THEN conjunct2, THEN conjunct2, THEN conjunct2, THEN conjunct1] t
    by (simp add: stream_resumed_def stream_paused56_facts passes_def)
  moreover have "calls (snd (setState 7 stream_resumed)) =
      calls stream_resumed @ map (\<lambda>p. (p, 7)) (filter (eligible stream_resumed 7)
        (observers stream_resumed))"
    by (rule setState_receives(2))
      (simp add: stream_resumed_def resume_closures(2) [OF c2] stream_paused56_facts
        t [unfolded stream_resumed_def])
  ultimately have k2: "calls (snd (setState 7 stream_resumed)) = [(0, 6), (0, 7)]"
    using k1 by (auto simp: stream_resumed_def resume_closures(2) [OF c2] stream_paused56_facts
        split: if_splits)
  from c1 k0 q [of 6] r k1 t k2 show ?thesis by blast
qed

text \<open>
  Claim C10. The option \<^verbatim>\<open>replayPolicy\<close> is given and is neither \<^verbatim>\<open>'last'\<close> nor
  \<^verbatim>\<open>'all'\<close>. Then \<^verbatim>\<open>subscribe\<close> returns the handle and has called no callback,
  whatever the buffer holds and whatever the stream's default policy is; \<^verbatim>\<open>resume()\<close>
  on a subscription with that option calls no callback either; and a later publish
  of \<open>v\<close> (no subscriber throwing on it) is delivered to the subscription exactly
  when its filter accepts \<open>v\<close>.
\<close>

theorem unknown_override_no_replay:
  assumes "opt_replayPolicy opts \<noteq> JUndefined"
    and "opt_replayPolicy opts \<noteq> JStr ''last''"
    and "opt_replayPolicy opts \<noteq> JStr ''all''"
  shows "fst (subscribe cb opts st) = Inr (next_closure st)
       \<and> calls (snd (subscribe cb opts st)) = calls st
       \<and> (\<forall>s ob c. closures s ob = Some c \<longrightarrow> sub_replayPolicy c = opt_replayPolicy opts \<longrightarrow>
            fst (resume ob s) = None \<and> calls (snd (resume ob s)) = calls s)
       \<and> ((\<forall>q \<in> set (observers (snd (subscribe cb opts st))).
              \<not> throwing (snd (subscribe cb opts st)) v q) \<longrightarrow>
            ((next_closure st, v) \<in> set (drop (length (calls (snd (subscribe cb opts st))))
                 (calls (snd (setState v (snd (subscribe cb opts st))))))
               \<longleftrightarrow> passes (opt_filter opts) v))"
proof -
  let ?ob = "next_closure st"
  let ?c = "\<lparr> callback = cb, filter_fn = opt_filter opts,
             sub_replayPolicy = opt_replayPolicy opts, paused = False \<rparr>"
  let ?st1 = "st\<lparr>closures := (closures st)(?ob \<mapsto> ?c),
                   next_closure := Suc ?ob,
                   observers := observers st @ [?ob]\<rparr>"
  let ?st' = "snd (subscribe cb opts st)"
  have rp: "replay ?ob ?st1 = (None, ?st1)"
    using assms by (simp add: replay_def)
  then have s: "subscribe cb opts st = (Inr ?ob, ?st1)"
    by (simp add: subscribe_def Let_def)
  have A: "fst (subscribe cb opts st) = Inr ?ob" and B: "calls ?st' = calls st"
    by (simp_all add: s)
  have C: "\<forall>s ob c. closures s ob = Some c \<longrightarrow> sub_replayPolicy c = opt_replayPolicy opts \<longrightarrow>
            fst (resume ob s) = None \<and> calls (snd (resume ob s)) = calls s"
    using assms by (auto simp: resume_def replay_def)
  have D: "(\<forall>q \<in> set (observers ?st'). \<not> throwing ?st' v q) \<longrightarrow>
            ((?ob, v) \<in> set (drop (length (calls ?st')) (calls (snd (setState v ?st'))))
               \<longleftrightarrow> passes (opt_filter opts) v)"
  proof
    assume q: "\<forall>q \<in> set (observers ?st'). \<not> throwing ?st' v q"
    have m: "?ob \<in> set (observers ?st')" by (simp add: s)
    have "eligible ?st' v ?ob = passes (opt_filter opts) v"
      by (simp add: s eligible_def)
    with setState_receives(3) [OF q m] show
      "(?ob, v) \<in> set (drop (length (calls ?st')) (calls (snd (setState v ?st'))))
               \<longleftrightarrow> passes (opt_filter opts) v" by simp
  qed
  from A B C D show ?thesis by blast
qed

theorem unknown_override_no_replay_witness:
  "JStr ''none'' \<noteq> JUndefined \<and> JStr ''none'' \<noteq> JStr ''last'' \<and> JStr ''none'' \<noteq> JStr ''all''
   \<and> buffered stream56 = [5, 6]
   \<and> fst (subscribe quiet_callback \<lparr>opt_filter = None, opt_replayPolicy = JStr ''none''\<rparr> stream56)
        = Inr 0
   \<and> calls stream_none = []
   \<and> calls (snd (resume 0 stream_none)) = []
   \<and> \<not> throwing stream_none 7 0
   \<and> (0, 7) \<in> set (calls (snd (setState 7 stream_none)))"
proof -
  let ?o = "\<lparr>opt_filter = None, opt_replayPolicy = JStr ''none''\<rparr> :: nat options"
  let ?c = "\<lparr> callback = quiet_callback, filter_fn = None,
             sub_replayPolicy = JStr ''none'', paused = False \<rparr> :: nat subscription"
  have h: "opt_replayPolicy ?o \<noteq> JUndefined" "opt_replayPolicy ?o \<noteq> JStr ''last''"
    "opt_replayPolicy ?o \<noteq> JStr ''all''" by simp_all
  note u = unknown_override_no_replay [OF h, of quiet_callback stream56 7]
  have f: "closures stream_none 0 = Some ?c" "observers stream_none = [0]"
    using subscribe_frame(1,2) [of quiet_callback ?o stream56
        "fst (subscribe quiet_callback ?o stream56)" stream_none]
    by (simp_all add: stream_none_def stream56_facts)
  have a: "fst (subscribe quiet_callback ?o stream56) = Inr 0"
    using u [THEN conjunct1] by (simp add: stream56_facts)
  have b: "calls stream_none = []"
    using u [THEN conjunct2, THEN conjunct1] by (simp add: stream_none_def stream56_facts)
  have c: "calls (snd (resume 0 stream_none)) = []"
    using u [THEN conjunct2, THEN conjunct2, THEN conjunct1, rule_format, OF f(1)] b by simp
  have t: "\<not> throwing stream_none 7 0"
    by (simp add: throwing_def f throws_on_def quiet_callback_def)
  have d: "(0, 7) \<in> set (calls (snd (setState 7 stream_none)))"
    using u [THEN conjunct2, THEN conjunct2, THEN conjunct2] t b
    by (simp add: stream_none_def [symmetric] f stream56_facts passes_def)
  from a b c t d stream56_facts(1) show ?thesis by simp
qed

section \<open>Removed subscriptions, and the array of the buffer\<close>

lemma unsubscribe_idem: "unsubscribe ob (unsubscribe ob st) = unsubscribe ob st"
  by (simp add: unsubscribe_def split: option.splits)

lemma unsubscribe_observers: "closures st ob = Some c \<Longrightarrow> ob \<notin> set (observers (unsubscribe ob st))"
  by (simp add: unsubscribe_def)

lemma removed_publish_all:
  assumes "ob \<notin> set (observers st)"
  shows "observers (publish_all vs st) = observers st
       \<and> (\<exists>n. calls (publish_all vs st) = calls st @ n \<and> (\<forall>x. (ob, x) \<notin> set n))"
  using assms
proof (induction vs arbitrary: st)
  case Nil
  then show ?case by simp
next
  case (Cons v vs)
  obtain r st1 where s: "setState v st = (r, st1)" by (cases "setState v st")
  have o1: "observers st1 = observers st" by (rule setState_frame(3) [OF s])
  have sub: "set (reached st v obs) \<subseteq> set obs" for obs
    by (induction obs) auto
  from setState_calls(1) [OF s] Cons.prems sub [of "observers st"]
  obtain n1 where k1: "calls st1 = calls st @ n1" and n1: "\<forall>x. (ob, x) \<notin> set n1"
    by auto
  from Cons.prems o1 have "ob \<notin> set (observers st1)" by simp
  from Cons.IH [OF this]
  obtain n2 where "observers (publish_all vs st1) = observers st1"
    and "calls (publish_all vs st1) = calls st1 @ n2" and "\<forall>x. (ob, x) \<notin> set n2"
    by auto
  with s o1 k1 n1 show ?case by auto
qed

text \<open>
  Claim C4, the run on which the code departs from it. A callback is subscribed and 7
  is published (one call). After \<^verbatim>\<open>unsubscribe()\<close>, and likewise after
  \<^verbatim>\<open>unsubscribeAll()\<close>, \<^verbatim>\<open>resume()\<close> on the handle calls the callback with 7 again:
  \<^verbatim>\<open>replay\<close> calls \<^verbatim>\<open>filteredObserver\<close> itself and does not look at \<open>observers\<close>.
\<close>

theorem resume_after_unsubscribe:
  "fst (subscribe quiet_callback no_options stream2) = Inr 0
   \<and> calls stream_one = [(0, 7)]
   \<and> observers (unsubscribe 0 stream_one) = []
   \<and> calls (unsubscribe 0 stream_one) = [(0, 7)]
   \<and> calls (snd (resume 0 (unsubscribe 0 stream_one))) = [(0, 7), (0, 7)]
   \<and> observers (unsubscribeAll stream_one) = []
   \<and> calls (snd (resume 0 (unsubscribeAll stream_one))) = [(0, 7), (0, 7)]"
  by (simp add: stream_one_def example_defs setState_def filteredObserver_def invoke_def
      unsubscribe_def unsubscribeAll_def resume_def)

text \<open>
  Claim C9 as stated fails: 5 and 6 are buffered; a push of 9 on the array
  \<^verbatim>\<open>getBuffer()\<close> returned puts 9 into the stream's buffer.
\<close>

theorem getBuffer_alias_counterexample:
  "buffered stream56 = [5, 6]
   \<and> buffered (array_push (getBuffer stream56) 9 stream56) = [5, 6, 9]
   \<and> buffered (array_push (getBuffer stream56) 9 stream56) \<noteq> buffered stream56"
  by (simp add: stream56_def stream2_def new_DataObservable_def setState_def buffered_def
      getBuffer_def array_push_def)

text \<open>
  Claim C9, amended. \<^verbatim>\<open>getBuffer()\<close> returns the stream's own buffer array, which holds
  the buffered values oldest first; it is not a copy. A push on the returned array is
  a push on the stream's buffer, and the returned array shows later publishes.
\<close>

theorem getBuffer_returns_buffer:
  "arrays st (getBuffer st) = buffered st
   \<and> buffered (array_push (getBuffer st) x st) = buffered st @ [x]
   \<and> arrays (snd (setState v st)) (getBuffer st) = buffered (snd (setState v st))"
proof -
  obtain r st' where s: "setState v st = (r, st')" by (cases "setState v st")
  from setState_frame(2) [OF s] s show ?thesis
    by (simp add: getBuffer_def buffered_def array_push_def)
qed

section \<open>The comparison of configurations\<close>

lemma strict_eq_primitive: "primitive a \<Longrightarrow> strict_eq a b = (a = b)"
  by (cases a) simp_all

lemma isEqual_primitive:
  assumes "primitive a" and "primitive b"
  shows "isEqual a b = (a = b)"
  using assms by (cases a; cases b; simp; subst isEqual.simps; simp)

lemma isEqual_undefined: "isEqual JUndefined (JObj qs) = False"
  by (subst isEqual.simps) simp

lemma get_prop_flat:
  assumes "list_all (\<lambda>kv. primitive (snd kv)) ps"
  shows "primitive (get_prop (JObj ps) k)"
proof (cases "map_of ps k")
  case None
  then show ?thesis by (simp add: get_prop_def)
next
  case (Some x)
  then have "(k, x) \<in> set ps" by (rule map_of_SomeD)
  with assms have "primitive x" by (auto simp: list_all_iff)
  with Some show ?thesis by (simp add: get_prop_def)
qed

lemma isEqual_flat:
  assumes "flat_config a" and "flat_config b"
  shows "isEqual a b = same_properties a b"
proof -
  from assms obtain ps qs where a: "a = JObj ps" and b: "b = JObj qs"
    and dp: "distinct (map fst ps)" and dq: "distinct (map fst qs)"
    and pp: "list_all (\<lambda>kv. primitive (snd kv)) ps"
    and pq: "list_all (\<lambda>kv. primitive (snd kv)) qs"
    by (auto simp: flat_config_def split: jsval.splits)
  let ?g = "\<lambda>xs k. get_prop (JObj xs) k"
  have prim: "primitive (?g ps k)" "primitive (?g qs k)" for k
    by (rule get_prop_flat [OF pp], rule get_prop_flat [OF pq])
  have unfold: "isEqual a b \<longleftrightarrow>
      ?g ps ''prototype'' = ?g qs ''prototype''
      \<and> length ps = length qs
      \<and> (\<forall>k \<in> set (map fst ps). k \<in> set (map fst qs) \<and> ?g ps k = ?g qs k)"
    unfolding a b
    by (subst isEqual.simps)
       (auto simp: strict_eq_primitive [OF prim(1)] isEqual_primitive [OF prim] own_keys_def
          list_all_iff)
  show ?thesis
  proof
    assume "isEqual a b"
    with unfold have len: "length ps = length qs"
      and sub: "set (map fst ps) \<subseteq> set (map fst qs)"
      and val: "\<And>k. k \<in> set (map fst ps) \<Longrightarrow> ?g ps k = ?g qs k"
      by auto
    have "card (set (map fst ps)) = card (set (map fst qs))"
      using distinct_card [OF dp] distinct_card [OF dq] len by simp
    with sub have keys: "set (map fst ps) = set (map fst qs)"
      by (simp add: card_subset_eq)
    have "map_of ps k = map_of qs k" for k
    proof (cases "k \<in> set (map fst ps)")
      case True
      with keys obtain x y where x: "map_of ps k = Some x" and y: "map_of qs k = Some y"
        by (metis map_of_eq_None_iff not_Some_eq set_map)
      with val [OF True] show ?thesis by (simp add: get_prop_def)
    next
      case False
      with keys have "k \<notin> fst ` set ps" and "k \<notin> fst ` set qs" by auto
      then have "map_of ps k = None" and "map_of qs k = None"
        by (simp_all add: map_of_eq_None_iff)
      then show ?thesis by simp
    qed
    then have "map_of ps = map_of qs" by (rule ext)
    with dp dq have "set ps = set qs" by (simp add: map_of_inject_set)
    then show "same_properties a b" by (simp add: same_properties_def a b)
  next
    assume "same_properties a b"
    then have s: "set ps = set qs" by (simp add: same_properties_def a b)
    with dp dq have m: "map_of ps = map_of qs" by (simp add: map_of_inject_set)
    then have g: "?g ps k = ?g qs k" for k by (simp add: get_prop_def)
    from s have keys: "set (map fst ps) = set (map fst qs)" by simp
    have "length ps = length qs"
      using distinct_card [OF dp] distinct_card [OF dq] keys by simp
    with g keys unfold show "isEqual a b" by auto
  qed
qed

section \<open>The registry\<close>

lemma notify_thrown: "notify obs v st = (Some e, st') \<Longrightarrow> \<exists>x. e = Thrown x"
proof (induction obs arbitrary: st)
  case Nil
  then show ?case by simp
next
  case (Cons ob obs)
  let ?s0 = "st\<lparr>observerState := (observerState st)(filteredObserver_source \<mapsto> v)\<rparr>"
  obtain r1 st1 where f: "filteredObserver ob v ?s0 = (r1, st1)"
    by (cases "filteredObserver ob v ?s0")
  show ?case
  proof (cases r1)
    case None
    with Cons.prems f have "notify obs v st1 = (Some e, st')" by simp
    from Cons.IH [OF this] show ?thesis .
  next
    case (Some e1)
    with Cons.prems f have "e = e1" by simp
    with f Some show ?thesis
      by (auto simp: filteredObserver_def invoke_def split: option.splits sum.splits if_splits)
  qed
qed

lemma setState_thrown: "fst (setState v st) = Some e \<Longrightarrow> \<exists>x. e = Thrown x"
  using notify_thrown [of "observers st" v _ e "snd (setState v st)"]
  by (cases "setState v st") (auto simp: setState_notify)

lemma generateObservable_cases:
  "generateObservable this channel w = (r, w1) \<Longrightarrow>
     (r = None \<and> (\<exists>d. maps w1 (store this) channel = Some d))
     \<or> (r = Some TypeError \<and> w1 = w \<and> config this = JNull)"
  by (auto simp: generateObservable_def construct_DataObservable_def
      split: option.splits if_splits)

text \<open>
  Claim C8. \<^verbatim>\<open>setState(channel, value)\<close> of the registry throws one of its own errors
  if and only if the channel is falsy (missing, or the empty string) or the value is
  \<^verbatim>\<open>undefined\<close>; it throws it before anything else is done, so the world is as before:
  no channel was created, no stream changed. Every other value, \<^verbatim>\<open>null\<close>, \<^verbatim>\<open>0\<close>,
  \<^verbatim>\<open>false\<close> and \<^verbatim>\<open>''\<close> among them, is accepted: the channel is created if it is not
  there and the value is handed to the stream's \<^verbatim>\<open>setState\<close>, whose outcome is the
  outcome of the call.
\<close>

theorem registry_setState_validation:
  "(\<not> truthy channel \<longrightarrow>
      PubSubMFE_setState this channel v w = (Some (Error ''Channel is required''), w))
   \<and> (truthy channel \<longrightarrow> v = JUndefined \<longrightarrow>
      PubSubMFE_setState this channel v w = (Some (Error ''New state is required''), w))
   \<and> ((\<exists>m. fst (PubSubMFE_setState this channel v w) = Some (Error m))
        \<longleftrightarrow> \<not> truthy channel \<or> v = JUndefined)
   \<and> (truthy channel \<longrightarrow> v \<noteq> JUndefined \<longrightarrow> config this \<noteq> JNull \<longrightarrow>
        (\<exists>d. maps (snd (generateObservable this channel w)) (store this) channel = Some d
           \<and> fst (PubSubMFE_setState this channel v w) = fst (setState v d)
           \<and> maps (snd (PubSubMFE_setState this channel v w)) (store this) channel
               = Some (snd (setState v d))))
   \<and> (\<not> truthy ch \<longleftrightarrow> ch = JUndefined \<or> ch = JNull \<or> ch = JBool False \<or> ch = JNum 0
          \<or> ch = JStr [])"
proof -
  have A: "\<not> truthy channel \<longrightarrow>
      PubSubMFE_setState this channel v w = (Some (Error ''Channel is required''), w)"
    by (simp add: PubSubMFE_setState_def)
  have B: "truthy channel \<longrightarrow> v = JUndefined \<longrightarrow>
      PubSubMFE_setState this channel v w = (Some (Error ''New state is required''), w)"
    by (simp add: PubSubMFE_setState_def)
  obtain r w1 where g: "generateObservable this channel w = (r, w1)"
    by (cases "generateObservable this channel w")
  have valid: "\<not> (\<exists>m. fst (PubSubMFE_setState this channel v w) = Some (Error m))"
    if t: "truthy channel" and d: "v \<noteq> JUndefined"
  proof -
    from generateObservable_cases [OF g] show ?thesis
    proof
      assume "r = None \<and> (\<exists>d. maps w1 (store this) channel = Some d)"
      then obtain d where r: "r = None" and m: "maps w1 (store this) channel = Some d" by auto
      have "fst (PubSubMFE_setState this channel v w) = fst (setState v d)"
        using t d g r m by (simp add: PubSubMFE_setState_def)
      then show ?thesis using setState_thrown [of v d] by auto
    next
      assume "r = Some TypeError \<and> w1 = w \<and> config this = JNull"
      then show ?thesis using t d g by (simp add: PubSubMFE_setState_def)
    qed
  qed
  have C: "(\<exists>m. fst (PubSubMFE_setState this channel v w) = Some (Error m))
        \<longleftrightarrow> \<not> truthy channel \<or> v = JUndefined"
    using A B valid by auto
  have D: "truthy channel \<longrightarrow> v \<noteq> JUndefined \<longrightarrow> config this \<noteq> JNull \<longrightarrow>
        (\<exists>d. maps (snd (generateObservable this channel w)) (store this) channel = Some d
           \<and> fst (PubSubMFE_setState this channel v w) = fst (setState v d)
           \<and> maps (snd (PubSubMFE_setState this channel v w)) (store this) channel
               = Some (snd (setState v d)))"
  proof (intro impI)
    assume t: "truthy channel" and d: "v \<noteq> JUndefined" and c: "config this \<noteq> JNull"
    from generateObservable_cases [OF g] c
    obtain d0 where r: "r = None" and m: "maps w1 (store this) channel = Some d0" by auto
    show "\<exists>d. maps (snd (generateObservable this channel w)) (store this) channel = Some d
           \<and> fst (PubSubMFE_setState this channel v w) = fst (setState v d)
           \<and> maps (snd (PubSubMFE_setState this channel v w)) (store this) channel
               = Some (snd (setState v d))"
      using t d g r m by (intro exI [of _ d0]) (simp add: PubSubMFE_setState_def)
  qed
  have E: "\<not> truthy ch \<longleftrightarrow> ch = JUndefined \<or> ch = JNull \<or> ch = JBool False \<or> ch = JNum 0
          \<or> ch = JStr []"
    by (cases ch) simp_all
  from A B C D E show ?thesis by blast
qed

lemma first_construction:
  assumes "storeMap p1 = NoStoreMap" and "ObservableConfig p1 \<noteq> JNull"
  shows "PubSubMFE_constructor p1 initial_world =
     (Inr \<lparr> store = 0, config = config_given (ObservableConfig p1) \<rparr>,
      \<lparr> maps = (\<lambda>m. Map.empty)(0 := [JStr ''default'' \<mapsto>
                 new_DataObservable (as_config (config_given (ObservableConfig p1)))]),
        next_map = Suc 0,
        static_store_default = Some 0,
        firstInstanceParams_default = Some p1 \<rparr>)"
  using assms
  by (simp add: PubSubMFE_constructor_def initial_world_def construct_DataObservable_def
      config_given_def Let_def)

lemma later_construction:
  assumes "storeMap p2 = NoStoreMap" and "ObservableConfig p2 \<noteq> JNull"
    and "static_store_default w = Some m" and "maps w m (JStr ''default'') = Some d"
    and "firstInstanceParams_default w = Some p1"
  shows "PubSubMFE_constructor p2 w =
     (if own_keys (config_given (ObservableConfig p2)) \<noteq> []
         \<and> \<not> isEqual (ObservableConfig p1) (config_given (ObservableConfig p2))
      then (Inl (Error config_conflict), w)
      else (Inr \<lparr> store = m, config = config_given (ObservableConfig p2) \<rparr>, w))"
proof -
  have w: "w\<lparr>firstInstanceParams_default := Some p1\<rparr> = w"
    using assms(5) by simp
  show ?thesis
    using assms by (simp add: PubSubMFE_constructor_def config_given_def Let_def w)
qed

lemma own_keys_given: "config_arg c \<Longrightarrow> own_keys (config_given c) = own_keys c"
  by (auto simp: config_given_def own_keys_def)

lemma isEqual_config:
  assumes "config_arg a" and "config_arg b" and "own_keys b \<noteq> []"
  shows "isEqual a (config_given b) = same_properties a b"
proof -
  from assms(2,3) have fb: "flat_config b" and gb: "config_given b = b"
    by (auto simp: config_arg_def config_given_def own_keys_def)
  then obtain qs where b: "b = JObj qs" by (auto simp: flat_config_def split: jsval.splits)
  show ?thesis
  proof (cases "a = JUndefined")
    case True
    then show ?thesis using gb by (simp add: b isEqual_undefined same_properties_def)
  next
    case False
    with assms(1) have "flat_config a" by (simp add: config_arg_def)
    from isEqual_flat [OF this fb] show ?thesis by (simp add: gb)
  qed
qed

lemma constructor_first:
  "firstInstanceParams_default (snd (PubSubMFE_constructor q u)) =
     Some (case firstInstanceParams_default u of None \<Rightarrow> q | Some fp \<Rightarrow> fp)"
  by (simp add: PubSubMFE_constructor_def Let_def
      split: option.splits storeMapArg.splits sum.splits)

lemma config_examples:
  "config_arg config5" "config_arg config5'" "config_arg config3" "config_arg JUndefined"
  "own_keys config5' \<noteq> []" "own_keys config3 \<noteq> []" "own_keys JUndefined = []"
  "same_properties config5 config5'" "\<not> same_properties config5 config3"
  by (simp_all add: config_arg_def flat_config_def config5_def config5'_def config3_def
      own_keys_def same_properties_def set_eq_subset)

lemma registry5_facts: "store registry5 = 0" "config registry5 = config5"
  by (simp_all add: registry5_def)

lemma world5_facts:
  "maps world5 0 (JStr ''default'') = Some (new_DataObservable (as_config config5))"
  "maps world5 0 (JStr ''c'') = None"
  using first_construction [of "shared config5"]
  by (simp_all add: world5_def shared_def config5_def config_given_def)

lemma world5_more:
  "static_store_default world5 = Some 0"
  "firstInstanceParams_default world5 = Some (shared config5)"
  using first_construction [of "shared config5"]
  by (simp_all add: world5_def shared_def config5_def config_given_def)

lemma world_own_facts:
  "static_store_default world_own = None"
  "firstInstanceParams_default world_own = Some \<lparr> storeMap = AMap 0, ObservableConfig = config5 \<rparr>"
  "next_map world_own = Suc 0"
  by (simp_all add: world_own_def new_Map_def initial_world_def PubSubMFE_constructor_def
      construct_DataObservable_def config5_def Let_def)

lemma world_both_facts:
  "fst (PubSubMFE_constructor (shared config3) world_own)
     = Inr \<lparr> store = Suc 0, config = config3 \<rparr>"
  "static_store_default world_both = Some (Suc 0)"
  "firstInstanceParams_default world_both
     = Some \<lparr> storeMap = AMap 0, ObservableConfig = config5 \<rparr>"
  "maps world_both (Suc 0) (JStr ''default'') = Some (new_DataObservable (as_config config3))"
  by (simp_all add: world_both_def PubSubMFE_constructor_def world_own_facts shared_def
      construct_DataObservable_def Let_def, simp_all add: config3_def)

text \<open>
  Claim C7 as stated fails. A first instance is constructed on a store of its own,
  with \<open>config5\<close>; the shared store does not exist yet. A second instance, with no
  \<^verbatim>\<open>storeMap\<close> and \<open>config3\<close>, makes the shared store and its \<^verbatim>\<open>default\<close> channel: it is
  the first instance that populated the shared default channel. A further instance with
  no \<^verbatim>\<open>storeMap\<close> and the identical \<open>config3\<close> throws the configuration-conflict error,
  and one with \<open>config5\<close>, which has properties and is not deep-equal to \<open>config3\<close>, is
  constructed.
\<close>

theorem shared_default_guard_counterexample:
  "static_store_default world_own = None
   \<and> fst (PubSubMFE_constructor (shared config3) world_own)
        = Inr \<lparr> store = Suc 0, config = config3 \<rparr>
   \<and> static_store_default world_both = Some (Suc 0)
   \<and> maps world_both (Suc 0) (JStr ''default'') = Some (new_DataObservable (as_config config3))
   \<and> PubSubMFE_constructor (shared config3) world_both
        = (Inl (Error config_conflict), world_both)
   \<and> own_keys config5 \<noteq> [] \<and> \<not> isEqual config3 config5
   \<and> PubSubMFE_constructor (shared config5) world_both
        = (Inr \<lparr> store = Suc 0, config = config5 \<rparr>, world_both)"
proof -
  have s: "storeMap (shared c) = NoStoreMap" "ObservableConfig (shared c) = c" for c
    by (simp_all add: shared_def)
  have n: "config3 \<noteq> JNull" "config5 \<noteq> JNull" "config3 \<noteq> JUndefined" "config5 \<noteq> JUndefined"
    by (simp_all add: config3_def config5_def)
  have f: "flat_config config5" "flat_config config3"
    using config_examples(1,3) n by (simp_all add: config_arg_def)
  have e: "\<not> isEqual config5 config3" "isEqual config5 config5" "\<not> isEqual config3 config5"
    using isEqual_flat [OF f(1) f(2)] isEqual_flat [OF f(1) f(1)] isEqual_flat [OF f(2) f(1)]
      config_examples(9)
    by (auto simp add: same_properties_def config5_def config3_def)
  have k: "own_keys config5 \<noteq> []" by (simp add: own_keys_def config5_def)
  note l = later_construction [OF s(1) _ world_both_facts(2) world_both_facts(4)
      world_both_facts(3), unfolded s(2)]
  from l [OF n(1)] l [OF n(2)] e k world_both_facts world_own_facts(1) config_examples(6)
  show ?thesis
    by (simp add: config_given_def n)
qed

text \<open>
  Claim C7, amended. The parameters the guard compares with are those recorded at the
  first construction of an instance in the process, whichever store that instance
  used: every construction leaves \<^verbatim>\<open>firstInstanceParams['default']\<close> as it found it,
  or sets it to its own parameters when there was none. Let the shared store have its
  \<^verbatim>\<open>default\<close> channel and let \<open>p1\<close> be the parameters recorded. A construction with no
  \<^verbatim>\<open>storeMap\<close> throws the configuration-conflict error exactly when its configuration
  has a property and has not the same properties as that of \<open>p1\<close> (an absent
  configuration of \<open>p1\<close> equals none); with the same properties, with \<^verbatim>\<open>{}\<close> or with no
  configuration it returns an instance on the shared store. Nothing in the world
  changes either way. Both configurations are absent or objects with primitive
  property values.
\<close>

theorem shared_default_config_guard:
  assumes "storeMap p = NoStoreMap"
    and "static_store_default w = Some m" and "maps w m (JStr ''default'') = Some d"
    and "firstInstanceParams_default w = Some p1"
    and "config_arg (ObservableConfig p1)" and "config_arg (ObservableConfig p)"
  shows "PubSubMFE_constructor p w =
          (if own_keys (ObservableConfig p) \<noteq> []
              \<and> \<not> same_properties (ObservableConfig p1) (ObservableConfig p)
           then (Inl (Error config_conflict), w)
           else (Inr \<lparr> store = m, config = config_given (ObservableConfig p) \<rparr>, w))
       \<and> (\<forall>q u. firstInstanceParams_default (snd (PubSubMFE_constructor q u)) =
             Some (case firstInstanceParams_default u of None \<Rightarrow> q | Some fp \<Rightarrow> fp))"
proof -
  have n: "ObservableConfig p \<noteq> JNull"
    using assms(6) by (auto simp: config_arg_def flat_config_def)
  note l = later_construction [OF assms(1) n assms(2) assms(3) assms(4)]
  have e: "own_keys (config_given (ObservableConfig p)) \<noteq> []
         \<and> \<not> isEqual (ObservableConfig p1) (config_given (ObservableConfig p))
      \<longleftrightarrow> own_keys (ObservableConfig p) \<noteq> []
         \<and> \<not> same_properties (ObservableConfig p1) (ObservableConfig p)"
    using isEqual_config [OF assms(5) assms(6)] own_keys_given [OF assms(6)] by auto
  show ?thesis
    unfolding l e by (simp add: constructor_first)
qed

theorem shared_default_config_guard_witness:
  "storeMap (shared config3) = NoStoreMap
   \<and> static_store_default world5 = Some 0
   \<and> maps world5 0 (JStr ''default'') = Some (new_DataObservable (as_config config5))
   \<and> firstInstanceParams_default world5 = Some (shared config5)
   \<and> config_arg config5 \<and> config_arg config3 \<and> config_arg config5' \<and> config_arg JUndefined
   \<and> own_keys config3 \<noteq> [] \<and> \<not> same_properties config5 config3
   \<and> PubSubMFE_constructor (shared config3) world5 = (Inl (Error config_conflict), world5)
   \<and> same_properties config5 config5'
   \<and> PubSubMFE_constructor (shared config5') world5
        = (Inr \<lparr> store = 0, config = config5' \<rparr>, world5)
   \<and> PubSubMFE_constructor (shared JUndefined) world5
        = (Inr \<lparr> store = 0, config = JObj [] \<rparr>, world5)
   \<and> static_store_default world_both = Some (Suc 0)
   \<and> firstInstanceParams_default world_both
        = Some \<lparr> storeMap = AMap 0, ObservableConfig = config5 \<rparr>
   \<and> PubSubMFE_constructor (shared config3) world_both
        = (Inl (Error config_conflict), world_both)
   \<and> PubSubMFE_constructor (shared config5') world_both
        = (Inr \<lparr> store = Suc 0, config = config5' \<rparr>, world_both)"
proof -
  have s: "storeMap (shared c) = NoStoreMap" "ObservableConfig (shared c) = c" for c
    by (simp_all add: shared_def)
  have o: "ObservableConfig \<lparr> storeMap = AMap 0, ObservableConfig = config5 \<rparr> = config5"
    by simp
  note g = shared_default_config_guard [OF s(1) world5_more(1) world5_facts(1) world5_more(2),
      unfolded s(2), THEN conjunct1]
  note h = shared_default_config_guard [OF s(1) world_both_facts(2) world_both_facts(4)
      world_both_facts(3), unfolded s(2) o, THEN conjunct1]
  have u: "config5' \<noteq> JUndefined" by (simp add: config5'_def)
  have a: "PubSubMFE_constructor (shared config3) world5 = (Inl (Error config_conflict), world5)"
    using g [OF config_examples(1) config_examples(3)] by (simp add: config_examples)
  have b: "PubSubMFE_constructor (shared config5') world5
        = (Inr \<lparr> store = 0, config = config5' \<rparr>, world5)"
    using g [OF config_examples(1) config_examples(2)]
    by (simp add: config_examples config_given_def u)
  have c: "PubSubMFE_constructor (shared JUndefined) world5
        = (Inr \<lparr> store = 0, config = JObj [] \<rparr>, world5)"
    using g [OF config_examples(1) config_examples(4)]
    by (simp add: config_examples config_given_def)
  have d: "PubSubMFE_constructor (shared config3) world_both
        = (Inl (Error config_conflict), world_both)"
    using h [OF config_examples(1) config_examples(3)] by (simp add: config_examples)
  have e: "PubSubMFE_constructor (shared config5') world_both
        = (Inr \<lparr> store = Suc 0, config = config5' \<rparr>, world_both)"
    using h [OF config_examples(1) config_examples(2)]
    by (simp add: config_examples config_given_def u)
  from a b c d e show ?thesis
    by (simp add: s world5_more world5_facts world_both_facts config_examples)
qed

theorem registry_setState_validation_witness:
  "\<not> truthy JUndefined \<and> \<not> truthy (JStr '''') \<and> truthy (JStr ''c'')
   \<and> PubSubMFE_setState registry5 JUndefined (JNum 1) world5
        = (Some (Error ''Channel is required''), world5)
   \<and> PubSubMFE_setState registry5 (JStr '''') (JNum 1) world5
        = (Some (Error ''Channel is required''), world5)
   \<and> PubSubMFE_setState registry5 (JStr ''c'') JUndefined world5
        = (Some (Error ''New state is required''), world5)
   \<and> fst (PubSubMFE_setState registry5 (JStr ''c'') JNull world5) = None
   \<and> fst (PubSubMFE_setState registry5 (JStr ''c'') (JNum 0) world5) = None
   \<and> fst (PubSubMFE_setState registry5 (JStr ''c'') (JBool False) world5) = None
   \<and> fst (PubSubMFE_setState registry5 (JStr ''c'') (JStr '''') world5) = None
   \<and> map_option buffered (maps (snd (PubSubMFE_setState registry5 (JStr ''c'') JNull world5))
        0 (JStr ''c'')) = Some [JNull]"
proof -
  note v = registry_setState_validation [of _ registry5 _ world5 JUndefined]
  have t: "\<not> truthy JUndefined" "\<not> truthy (JStr '''')" "truthy (JStr ''c'')" by simp_all
  have a: "PubSubMFE_setState registry5 JUndefined (JNum 1) world5
        = (Some (Error ''Channel is required''), world5)"
    "PubSubMFE_setState registry5 (JStr '''') (JNum 1) world5
        = (Some (Error ''Channel is required''), world5)"
    using v [of JUndefined "JNum 1", THEN conjunct1] v [of "JStr ''''" "JNum 1", THEN conjunct1]
    by simp_all
  have b: "PubSubMFE_setState registry5 (JStr ''c'') JUndefined world5
        = (Some (Error ''New state is required''), world5)"
    using v [of "JStr ''c''" JUndefined, THEN conjunct2, THEN conjunct1] by simp
  have g: "generateObservable registry5 (JStr ''c'') world5 =
      (None, world5\<lparr>maps := (maps world5)(0 := (maps world5 0)(JStr ''c'' \<mapsto>
         new_DataObservable (as_config config5)))\<rparr>)"
    by (simp add: generateObservable_def registry5_facts world5_facts
        construct_DataObservable_def, simp add: config5_def)
  have n: "setState x (new_DataObservable (as_config config5) :: jsval DataObservable) =
      (None, (new_DataObservable (as_config config5))\<lparr>arrays := (\<lambda>a. [])(0 := [x])\<rparr>)" for x
    by (simp add: setState_def new_DataObservable_def as_config_def config5_def get_prop_def)
  have c: "fst (PubSubMFE_setState registry5 (JStr ''c'') x world5) = None"
    if "x \<noteq> JUndefined" for x
    using that by (simp add: PubSubMFE_setState_def g n registry5_facts)
  have d: "map_option buffered (maps (snd (PubSubMFE_setState registry5 (JStr ''c'') JNull world5))
        0 (JStr ''c'')) = Some [JNull]"
    by (simp add: PubSubMFE_setState_def g n registry5_facts buffered_def, simp add: new_DataObservable_def)
  from t a b c [of JNull] c [of "JNum 0"] c [of "JBool False"] c [of "JStr ''''"] d
  show ?thesis by simp
qed

section \<open>A \<^verbatim>\<open>bufferSize\<close> that is not a number\<close>

lemma string_to_number_examples:
  "string_to_number ''3'' = Num 3" "string_to_number '' 12 '' = Num 12"
  "string_to_number '''' = Num 0" "string_to_number ''0x1f'' = Num 31"
  "string_to_number ''2.5e1'' = Num 25" "string_to_number ''3.5'' = Num 3"
  "string_to_number ''-Infinity'' = NegInfinity" "string_to_number ''many'' = NaN"
  by (simp_all add: string_to_number_def trim_def white_space_def is_sign_def is_minus_def
      unsigned_decimal_def signed_integer_def is_e_def digits_def digit_def radix_value_def
      scale_def Let_def)

text \<open>
  The stream of a registry whose configuration has the \<^verbatim>\<open>bufferSize\<close> \<^verbatim>\<open>'3'\<close> buffers three
  values, with \<^verbatim>\<open>null\<close> none, with a text that is no numeral every value, and with none
  given one value.
\<close>

lemma converted_bufferSize:
  "map_option buffered
     (maps (published678 (JObj [(''bufferSize'', JStr ''3'')])) 0 (JStr ''default''))
     = Some [JNum 6, JNum 7, JNum 8]"
  "map_option buffered
     (maps (published678 (JObj [(''bufferSize'', JNull)])) 0 (JStr ''default''))
     = Some []"
  "map_option buffered
     (maps (published678 (JObj [(''bufferSize'', JStr ''many'')])) 0 (JStr ''default''))
     = Some [JNum 6, JNum 7, JNum 8]"
  "map_option buffered (maps (published678 (JObj [])) 0 (JStr ''default''))
     = Some [JNum 8]"
  by (simp_all add: published678_def shared_def initial_world_def
      PubSubMFE_constructor_def PubSubMFE_setState_def generateObservable_def
      construct_DataObservable_def as_config_def get_prop_def own_keys_def
      new_DataObservable_def setState_def buffered_def string_to_number_examples Let_def)

end
